theory Spec2Isabelle
  imports Main "HOL-Library.AList"
begin

section \<open>JavaScript values and objects\<close>

text \<open>
  The scheduler of \<^verbatim>\<open>src/lib/scheduler.ts\<close> passes configuration objects around and
  reads their properties under JavaScript's rules: a missing property reads as
  \<^verbatim>\<open>undefined\<close>, a condition tests truthiness, \<^verbatim>\<open>Object.assign\<close> copies the own
  properties of each source that is an object, later sources overriding earlier ones.
  An object is a finite map from property names to values; numbers are integers
  (the scheduler only compares and forwards them).
\<close>

datatype jsval =
    JUndefined
  | JNull
  | JBool bool
  | JNum int
  | JStr string
  | JDate int
  | JObj "string \<Rightarrow> jsval option"

type_synonym obj = "string \<Rightarrow> jsval option"

text \<open>Property read \<^verbatim>\<open>o.f\<close>: \<^verbatim>\<open>undefined\<close> when the object has no such property.\<close>

definition get_prop :: "obj \<Rightarrow> string \<Rightarrow> jsval" where
  "get_prop ob f = (case ob f of None \<Rightarrow> JUndefined | Some v \<Rightarrow> v)"

text \<open>JavaScript truthiness, as tested by \<^verbatim>\<open>if (v)\<close> and \<^verbatim>\<open>v && w\<close>.\<close>

fun truthy :: "jsval \<Rightarrow> bool" where
  "truthy JUndefined = False"
| "truthy JNull = False"
| "truthy (JBool b) = b"
| "truthy (JNum n) = (n \<noteq> 0)"
| "truthy (JStr s) = (s \<noteq> [])"
| "truthy (JDate t) = True"
| "truthy (JObj ob) = True"

text \<open>\<^verbatim>\<open>typeof v === 'object'\<close> (true of \<^verbatim>\<open>null\<close> as well).\<close>

fun typeof_object :: "jsval \<Rightarrow> bool" where
  "typeof_object JNull = True"
| "typeof_object (JDate t) = True"
| "typeof_object (JObj ob) = True"
| "typeof_object v = False"

text \<open>
  The object spread \<^verbatim>\<open>{ ...v }\<close>: the own enumerable properties of an object, none
  for \<^verbatim>\<open>null\<close> or a date.
\<close>

fun spread :: "jsval \<Rightarrow> obj" where
  "spread (JObj ob) = ob"
| "spread v = Map.empty"

text \<open>
  \<^verbatim>\<open>Object.assign(target, ...sources)\<close>; an optional parameter that was omitted
  is the source \<^verbatim>\<open>undefined\<close> (here \<open>None\<close>), which is skipped.
\<close>

fun Object_assign :: "obj \<Rightarrow> obj option list \<Rightarrow> obj" where
  "Object_assign target [] = target"
| "Object_assign target (None # srcs) = Object_assign target srcs"
| "Object_assign target (Some src # srcs) = Object_assign (target ++ src) srcs"

section \<open>Data model\<close>

text \<open>
  \<^verbatim>\<open>READY\<close> and \<^verbatim>\<open>RUNNING\<close> are the two constants of \<^verbatim>\<open>./constants\<close>; the job kinds
  are the string literal type \<^verbatim>\<open>'cron' | 'interval' | 'timeout'\<close> of \<^verbatim>\<open>addJob\<close>.
\<close>

datatype job_status = READY | RUNNING

datatype job_kind = cron | interval | timeout

text \<open>Callbacks and lock functions are opaque; \<open>None\<close> is \<^verbatim>\<open>undefined\<close>.\<close>

type_synonym fn = nat
type_synonym handle = nat
type_synonym addr = nat

text \<open>
  \<^verbatim>\<open>IJob\<close>, with the fields the scheduler reads and writes. \<open>job_instance\<close> is the
  node-schedule job of a cron registration, \<open>job_timer\<close> the timer of an interval or
  timeout registration.
\<close>

record IJob =
  job_key :: string
  job_type :: job_kind
  job_config :: "obj option"
  job_method :: "fn option"
  job_tryLock :: "fn option"
  job_timer :: "handle option"
  job_instance :: "handle option"
  job_status :: job_status

datatype error =
    JobRepeatException string
  | TypeError string

text \<open>
  The result of running a function up to its return, its throw, or (for the
  \<^verbatim>\<open>async\<close> fire handlers) its first \<^verbatim>\<open>await\<close>. For an \<^verbatim>\<open>async\<close> function
  \<open>Returned\<close> is a promise already resolved, \<open>Threw\<close> a rejected one, and
  \<open>Awaiting e\<close> a handler suspended on the Executor run \<open>e\<close>.
\<close>

datatype outcome = Returned | Threw error | Awaiting nat

text \<open>
  The four fire handlers are closures over \<^verbatim>\<open>key\<close>, \<^verbatim>\<open>configs\<close>, \<^verbatim>\<open>cb\<close> and
  \<^verbatim>\<open>tryLock\<close>.
\<close>

datatype handler_kind = CronHandler | IntervalHandler | TimeoutHandler | RecurrenceHandler

record closure =
  cl_kind :: handler_kind
  cl_key :: string
  cl_configs :: obj
  cl_cb :: "fn option"
  cl_tryLock :: "fn option"

text \<open>
  Modelled from the spec: the Trigger Source (node-schedule and the Node timers, not
  part of the repository) keeps, per handle it gave out and has not released, what to
  call on a firing. \<open>Once\<close> is \<^verbatim>\<open>setTimeout\<close>, \<open>Repeating\<close> is \<^verbatim>\<open>setInterval\<close>,
  \<open>Recurring\<close> is \<^verbatim>\<open>schedule.scheduleJob\<close>; \<open>tr_rule\<close> is the first argument the
  scheduler passed (rule object, period or delay).
\<close>

datatype trigger_kind = Recurring | Repeating | Once

record trigger =
  tr_kind :: trigger_kind
  tr_rule :: jsval
  tr_onFire :: closure

text \<open>
  What a suspended handler does when its \<^verbatim>\<open>await executor.execute(...)\<close> resumes:
  the cron, interval, recurrence and immediate paths cancel the job when the run
  signalled stop, the timeout path cancels it always.
\<close>

datatype resumption = CancelIfStop | CancelAlways

text \<open>
  An Executor run in flight: the arguments of \<^verbatim>\<open>new Executor(configs)\<close> and
  \<^verbatim>\<open>execute(key, cb, tryLock)\<close>, and the handler's own frame (the \<^verbatim>\<open>job\<close> reference
  it read before the await, and how it resumes).
\<close>

record execution =
  ex_configs :: obj
  ex_key :: string
  ex_cb :: "fn option"
  ex_tryLock :: "fn option"
  ex_job :: addr
  ex_resume :: resumption

text \<open>
  The state. \<open>jobs\<close> is the static \<^verbatim>\<open>Map<string, IJob>\<close> in insertion order; its
  values are references into \<open>heap\<close>, since a suspended handler keeps its \<^verbatim>\<open>job\<close>
  object across a cancellation and a new registration of the same key.
  \<open>status_log\<close> is a history variable: one entry (object, value before, value
  written) per assignment to a \<^verbatim>\<open>status\<close> field.
\<close>

record state =
  jobs :: "(string \<times> addr) list"
  heap :: "addr \<Rightarrow> IJob option"
  next_addr :: addr
  triggers :: "handle \<Rightarrow> trigger option"
  next_handle :: handle
  running :: "nat \<Rightarrow> execution option"
  next_exec :: nat
  status_log :: "(addr \<times> job_status \<times> job_status) list"

definition init :: state where
  "init = \<lparr>jobs = [], heap = Map.empty, next_addr = 0, triggers = Map.empty,
     next_handle = 0, running = Map.empty, next_exec = 0, status_log = []\<rparr>"

text \<open>
  Modelled from the spec: \<^verbatim>\<open>./defaults\<close> is not in the sources; these are the
  defaults of the spec's configuration table. Every operation below takes the
  defaults object as its first parameter \<open>d\<close>.
\<close>

definition defaults :: obj where
  "defaults = [''enable'' \<mapsto> JBool True, ''maxRetry'' \<mapsto> JNum (- 1),
     ''retryInterval'' \<mapsto> JNum 5000, ''waiting'' \<mapsto> JBool False,
     ''immediate'' \<mapsto> JBool False]"

section \<open>The trigger source\<close>

text \<open>Modelled from the spec: registering hands out a fresh handle.\<close>

definition register_trigger :: "trigger_kind \<Rightarrow> jsval \<Rightarrow> closure \<Rightarrow> state \<Rightarrow> handle \<times> state" where
  "register_trigger k r c s =
     (let h = next_handle s in
      (h, s\<lparr>triggers := (triggers s)(h \<mapsto> \<lparr>tr_kind = k, tr_rule = r, tr_onFire = c\<rparr>),
            next_handle := Suc h\<rparr>))"

text \<open>
  Modelled from the spec: \<^verbatim>\<open>instance.cancel()\<close>, \<^verbatim>\<open>clearInterval\<close> and
  \<^verbatim>\<open>clearTimeout\<close> release the handle; releasing a handle that is not registered
  (a timeout that has fired) does nothing.
\<close>

definition release_trigger :: "handle \<Rightarrow> state \<Rightarrow> state" where
  "release_trigger h s = s\<lparr>triggers := (triggers s)(h := None)\<rparr>"

section \<open>The scheduler\<close>

text \<open>\<^verbatim>\<open>this.jobs.get(key)\<close>: the reference and the object it points to.\<close>

definition jobs_get :: "state \<Rightarrow> string \<Rightarrow> (addr \<times> IJob) option" where
  "jobs_get s key =
     (case map_of (jobs s) key of
        None \<Rightarrow> None
      | Some a \<Rightarrow> (case heap s a of None \<Rightarrow> None | Some j \<Rightarrow> Some (a, j)))"

text \<open>\<^verbatim>\<open>job.status = v\<close> on the object at \<open>a\<close>.\<close>

definition set_status :: "addr \<Rightarrow> job_status \<Rightarrow> state \<Rightarrow> state" where
  "set_status a v s =
     (case heap s a of
        None \<Rightarrow> s
      | Some j \<Rightarrow> s\<lparr>heap := (heap s)(a \<mapsto> j\<lparr>job_status := v\<rparr>),
                    status_log := status_log s @ [(a, job_status j, v)]\<rparr>)"

definition assertJobNotExist :: "string \<Rightarrow> state \<Rightarrow> outcome" where
  "assertJobNotExist key s =
     (if map_of (jobs s) key \<noteq> None
      then Threw (JobRepeatException (''The job '' @ key @ '' is exists.''))
      else Returned)"

definition addJob ::
  "string \<Rightarrow> job_kind \<Rightarrow> obj option \<Rightarrow> handle option \<Rightarrow> handle option \<Rightarrow> state \<Rightarrow> state" where
  "addJob key ty config inst tm s =
     (let a = next_addr s in
      s\<lparr>jobs := AList.update key a (jobs s),
        heap := (heap s)(a \<mapsto> \<lparr>job_key = key, job_type = ty, job_config = config,
                  job_method = None, job_tryLock = None, job_timer = tm,
                  job_instance = inst, job_status = READY\<rparr>),
        next_addr := Suc a\<rparr>)"

definition cancelJob :: "string \<Rightarrow> state \<Rightarrow> outcome \<times> state" where
  "cancelJob key s =
     (case jobs_get s key of
        None \<Rightarrow> (Returned, s)
      | Some (a, job) \<Rightarrow>
          (case job_type job of
             cron \<Rightarrow>
               (case job_instance job of
                  None \<Rightarrow> (Threw (TypeError ''Cannot read properties of undefined (reading 'cancel')''), s)
                | Some h \<Rightarrow> (Returned, (release_trigger h s)\<lparr>jobs := AList.delete key (jobs s)\<rparr>))
           | interval \<Rightarrow>
               (case job_timer job of
                  None \<Rightarrow> (Returned, s\<lparr>jobs := AList.delete key (jobs s)\<rparr>)
                | Some h \<Rightarrow> (Returned, (release_trigger h s)\<lparr>jobs := AList.delete key (jobs s)\<rparr>))
           | timeout \<Rightarrow>
               (case job_timer job of
                  None \<Rightarrow> (Returned, s\<lparr>jobs := AList.delete key (jobs s)\<rparr>)
                | Some h \<Rightarrow> (Returned, (release_trigger h s)\<lparr>jobs := AList.delete key (jobs s)\<rparr>))))"

text \<open>
  \<^verbatim>\<open>cancelJobs\<close> walks the keys of the map in insertion order; a throw of
  \<^verbatim>\<open>cancelJob\<close> ends the walk.
\<close>

fun cancel_each :: "string list \<Rightarrow> state \<Rightarrow> outcome \<times> state" where
  "cancel_each [] s = (Returned, s)"
| "cancel_each (key # keys) s =
     (case cancelJob key s of
        (Returned, s') \<Rightarrow> cancel_each keys s'
      | (out, s') \<Rightarrow> (out, s'))"

definition cancelJobs :: "state \<Rightarrow> outcome \<times> state" where
  "cancelJobs s = cancel_each (map fst (jobs s)) s"

text \<open>
  The part every handler shares once its guard has passed:
  \<^verbatim>\<open>job.status = RUNNING; const executor = new Executor(configs);
  await executor.execute(key, cb, tryLock)\<close>. The handler is then suspended.
\<close>

definition start_run ::
  "addr \<Rightarrow> string \<Rightarrow> obj \<Rightarrow> fn option \<Rightarrow> fn option \<Rightarrow> resumption \<Rightarrow> state \<Rightarrow> outcome \<times> state" where
  "start_run a key configs cb tryLock r s =
     (let s1 = set_status a RUNNING s; e = next_exec s1 in
      (Awaiting e,
       s1\<lparr>running := (running s1)(e \<mapsto> \<lparr>ex_configs = configs, ex_key = key, ex_cb = cb,
                          ex_tryLock = tryLock, ex_job = a, ex_resume = r\<rparr>),
          next_exec := Suc e\<rparr>))"

text \<open>
  The handler of \<^verbatim>\<open>scheduleCronJob\<close> and \<^verbatim>\<open>scheduleRecurrenceJob\<close>:
  \<^verbatim>\<open>if (configs.waiting && job!.status !== READY) return; job!.status = RUNNING; ...\<close>
  with no test of \<^verbatim>\<open>job\<close>.
\<close>

definition cron_handler ::
  "string \<Rightarrow> obj \<Rightarrow> fn option \<Rightarrow> fn option \<Rightarrow> state \<Rightarrow> outcome \<times> state" where
  "cron_handler key configs cb tryLock s =
     (case jobs_get s key of
        None \<Rightarrow>
          (if truthy (get_prop configs ''waiting'')
           then (Threw (TypeError ''Cannot read properties of undefined (reading 'status')''), s)
           else (Threw (TypeError ''Cannot set properties of undefined (setting 'status')''), s))
      | Some (a, job) \<Rightarrow>
          (if truthy (get_prop configs ''waiting'') \<and> job_status job \<noteq> READY
           then (Returned, s)
           else start_run a key configs cb tryLock CancelIfStop s))"

text \<open>
  The handlers of \<^verbatim>\<open>scheduleIntervalJob\<close> and \<^verbatim>\<open>scheduleTimeoutJob\<close>, and
  \<^verbatim>\<open>runJobImmediately\<close>:
  \<^verbatim>\<open>if (!job || (configs.waiting && job.status !== READY)) return;\<close>
\<close>

definition guarded_handler ::
  "resumption \<Rightarrow> string \<Rightarrow> obj \<Rightarrow> fn option \<Rightarrow> fn option \<Rightarrow> state \<Rightarrow> outcome \<times> state" where
  "guarded_handler r key configs cb tryLock s =
     (case jobs_get s key of
        None \<Rightarrow> (Returned, s)
      | Some (a, job) \<Rightarrow>
          (if truthy (get_prop configs ''waiting'') \<and> job_status job \<noteq> READY
           then (Returned, s)
           else start_run a key configs cb tryLock r s))"

definition interval_handler ::
  "string \<Rightarrow> obj \<Rightarrow> fn option \<Rightarrow> fn option \<Rightarrow> state \<Rightarrow> outcome \<times> state" where
  "interval_handler = guarded_handler CancelIfStop"

definition timeout_handler ::
  "string \<Rightarrow> obj \<Rightarrow> fn option \<Rightarrow> fn option \<Rightarrow> state \<Rightarrow> outcome \<times> state" where
  "timeout_handler = guarded_handler CancelAlways"

definition runJobImmediately ::
  "string \<Rightarrow> obj \<Rightarrow> fn option \<Rightarrow> fn option \<Rightarrow> state \<Rightarrow> outcome \<times> state" where
  "runJobImmediately = guarded_handler CancelIfStop"

text \<open>Calling a closure the trigger source holds.\<close>

definition call_handler :: "closure \<Rightarrow> state \<Rightarrow> outcome \<times> state" where
  "call_handler c s =
     (case cl_kind c of
        CronHandler \<Rightarrow> cron_handler (cl_key c) (cl_configs c) (cl_cb c) (cl_tryLock c) s
      | RecurrenceHandler \<Rightarrow> cron_handler (cl_key c) (cl_configs c) (cl_cb c) (cl_tryLock c) s
      | IntervalHandler \<Rightarrow> interval_handler (cl_key c) (cl_configs c) (cl_cb c) (cl_tryLock c) s
      | TimeoutHandler \<Rightarrow> timeout_handler (cl_key c) (cl_configs c) (cl_cb c) (cl_tryLock c) s)"

text \<open>
  The tail of every schedule operation:
  \<^verbatim>\<open>if (configs.immediate) { this.runJobImmediately(key, configs, cb, tryLock); }\<close>.
  \<^verbatim>\<open>runJobImmediately\<close> is \<^verbatim>\<open>async\<close> and not awaited: the operation returns
  once the call has reached its first await.
\<close>

definition run_if_immediate ::
  "string \<Rightarrow> obj \<Rightarrow> fn option \<Rightarrow> fn option \<Rightarrow> state \<Rightarrow> outcome \<times> state" where
  "run_if_immediate key configs cb tryLock s =
     (if truthy (get_prop configs ''immediate'')
      then (Returned, snd (runJobImmediately key configs cb tryLock s))
      else (Returned, s))"

definition scheduleCronJob ::
  "obj \<Rightarrow> string \<Rightarrow> jsval \<Rightarrow> fn option \<Rightarrow> obj option \<Rightarrow> fn option \<Rightarrow> state \<Rightarrow> outcome \<times> state" where
  "scheduleCronJob d key cronv cb config tryLock s =
     (case assertJobNotExist key s of
        Threw e \<Rightarrow> (Threw e, s)
      | _ \<Rightarrow>
          (let configs = Object_assign Map.empty [Some d, config];
               cronJob =
                 (if typeof_object cronv then spread cronv
                  else [''start'' \<mapsto> (case config of None \<Rightarrow> JNull | Some c \<Rightarrow> get_prop c ''startTime''),
                        ''end'' \<mapsto> (case config of None \<Rightarrow> JNull | Some c \<Rightarrow> get_prop c ''endTime''),
                        ''rule'' \<mapsto> cronv]);
               (inst, s1) = register_trigger Recurring (JObj cronJob)
                   \<lparr>cl_kind = CronHandler, cl_key = key, cl_configs = configs,
                    cl_cb = cb, cl_tryLock = tryLock\<rparr> s;
               s2 = addJob key cron config (Some inst) None s1
           in run_if_immediate key configs cb tryLock s2))"

definition scheduleIntervalJob ::
  "obj \<Rightarrow> string \<Rightarrow> jsval \<Rightarrow> fn option \<Rightarrow> obj option \<Rightarrow> fn option \<Rightarrow> state \<Rightarrow> outcome \<times> state" where
  "scheduleIntervalJob d key ival cb config tryLock s =
     (case assertJobNotExist key s of
        Threw e \<Rightarrow> (Threw e, s)
      | _ \<Rightarrow>
          (let configs = Object_assign Map.empty [config, config];
               (tm, s1) = register_trigger Repeating ival
                   \<lparr>cl_kind = IntervalHandler, cl_key = key, cl_configs = configs,
                    cl_cb = cb, cl_tryLock = tryLock\<rparr> s;
               s2 = addJob key interval config None (Some tm) s1
           in run_if_immediate key configs cb tryLock s2))"

definition scheduleTimeoutJob ::
  "obj \<Rightarrow> string \<Rightarrow> jsval \<Rightarrow> fn option \<Rightarrow> obj option \<Rightarrow> fn option \<Rightarrow> state \<Rightarrow> outcome \<times> state" where
  "scheduleTimeoutJob d key tmo cb config tryLock s =
     (case assertJobNotExist key s of
        Threw e \<Rightarrow> (Threw e, s)
      | _ \<Rightarrow>
          (let configs = Object_assign Map.empty [Some d, config];
               (tm, s1) = register_trigger Once tmo
                   \<lparr>cl_kind = TimeoutHandler, cl_key = key, cl_configs = configs,
                    cl_cb = cb, cl_tryLock = tryLock\<rparr> s;
               s2 = addJob key timeout config None (Some tm) s1
           in run_if_immediate key configs cb tryLock s2))"

text \<open>
  \<^verbatim>\<open>new schedule.RecurrenceRule(year, month, date, dayOfWeek, hour, minute, second, tz)\<close>
  from the fields of the rule passed in.
\<close>

definition RecurrenceRule :: "obj \<Rightarrow> obj" where
  "RecurrenceRule r =
     [''year'' \<mapsto> get_prop r ''year'', ''month'' \<mapsto> get_prop r ''month'', ''date'' \<mapsto> get_prop r ''date'',
      ''dayOfWeek'' \<mapsto> get_prop r ''dayOfWeek'', ''hour'' \<mapsto> get_prop r ''hour'',
      ''minute'' \<mapsto> get_prop r ''minute'', ''second'' \<mapsto> get_prop r ''second'', ''tz'' \<mapsto> get_prop r ''tz'']"

definition scheduleRecurrenceJob ::
  "obj \<Rightarrow> string \<Rightarrow> obj \<Rightarrow> fn option \<Rightarrow> obj option \<Rightarrow> fn option \<Rightarrow> state \<Rightarrow> outcome \<times> state" where
  "scheduleRecurrenceJob d key recurrenceRule cb config tryLock s =
     (case assertJobNotExist key s of
        Threw e \<Rightarrow> (Threw e, s)
      | _ \<Rightarrow>
          (let rule = RecurrenceRule recurrenceRule;
               configs = Object_assign Map.empty [Some d, config];
               (inst, s1) = register_trigger Recurring (JObj rule)
                   \<lparr>cl_kind = RecurrenceHandler, cl_key = key, cl_configs = configs,
                    cl_cb = cb, cl_tryLock = tryLock\<rparr> s;
               s2 = addJob key cron config (Some inst) None s1
           in run_if_immediate key configs cb tryLock s2))"

text \<open>
  \<^verbatim>\<open>queueJob\<close>, the bulk registration. \<^verbatim>\<open>job.config!.interval!\<close> and
  \<^verbatim>\<open>job.config!.timeout!\<close> read the job's own config, which faults when the job
  has none.
\<close>

definition queueJob :: "obj \<Rightarrow> IJob \<Rightarrow> state \<Rightarrow> outcome \<times> state" where
  "queueJob d job s =
     (let config = Object_assign Map.empty [Some d, job_config job] in
      if truthy (get_prop config ''enable'') then
        (case job_type job of
           cron \<Rightarrow>
             scheduleCronJob d (job_key job) (get_prop config ''cron'') (job_method job)
               (Some config) (job_tryLock job) s
         | interval \<Rightarrow>
             (case job_config job of
                None \<Rightarrow> (Threw (TypeError ''Cannot read properties of undefined (reading 'interval')''), s)
              | Some jc \<Rightarrow>
                  scheduleIntervalJob d (job_key job) (get_prop jc ''interval'') (job_method job)
                    (Some config) (job_tryLock job) s)
         | timeout \<Rightarrow>
             (case job_config job of
                None \<Rightarrow> (Threw (TypeError ''Cannot read properties of undefined (reading 'timeout')''), s)
              | Some jc \<Rightarrow>
                  scheduleTimeoutJob d (job_key job) (get_prop jc ''timeout'') (job_method job)
                    (Some config) (job_tryLock job) s))
      else (Returned, s))"

section \<open>Firings and completions\<close>

text \<open>
  Modelled from the spec: the trigger source delivers a firing of a handle it holds by
  calling the handle's closure; a \<^verbatim>\<open>setTimeout\<close> handle is spent by its firing.
\<close>

definition fire :: "handle \<Rightarrow> state \<Rightarrow> outcome \<times> state" where
  "fire h s =
     (case triggers s h of
        None \<Rightarrow> (Returned, s)
      | Some t \<Rightarrow>
          call_handler (tr_onFire t)
            (if tr_kind t = Once then release_trigger h s else s))"

text \<open>
  The rest of a suspended handler, once its \<^verbatim>\<open>await executor.execute(...)\<close> has a
  value: \<^verbatim>\<open>job.status = READY; if (needStop) { this.cancelJob(key); }\<close>, and for the
  timeout handler \<^verbatim>\<open>job.status = READY; this.cancelJob(key);\<close>. \<^verbatim>\<open>job\<close> is the
  reference the handler read before the await. The Executor (\<^verbatim>\<open>./executor\<close>) is not
  in the sources: the value \<open>needStop\<close> its run \<open>e\<close> resolves to is a parameter
  (by the spec's contract \<^verbatim>\<open>execute\<close> resolves to a boolean, true when the caller
  should cancel the job).
\<close>

definition resume :: "nat \<Rightarrow> bool \<Rightarrow> state \<Rightarrow> outcome \<times> state" where
  "resume e needStop s =
     (case running s e of
        None \<Rightarrow> (Returned, s)
      | Some x \<Rightarrow>
          (let s1 = set_status (ex_job x) READY (s\<lparr>running := (running s)(e := None)\<rparr>) in
           (case ex_resume x of
              CancelIfStop \<Rightarrow> (if needStop then cancelJob (ex_key x) s1 else (Returned, s1))
            | CancelAlways \<Rightarrow> cancelJob (ex_key x) s1)))"

section \<open>Histories\<close>

text \<open>
  Everything that can happen to the scheduler: a call of its public interface (by the
  application or from inside a callback), a firing delivered by the trigger source,
  and the resolution of an Executor run with its stop signal. A firing of a handle
  the trigger source does not hold, and a resolution of a run that is not in flight,
  change nothing.
\<close>

datatype event =
    CallScheduleCronJob string jsval "fn option" "obj option" "fn option"
  | CallScheduleIntervalJob string jsval "fn option" "obj option" "fn option"
  | CallScheduleTimeoutJob string jsval "fn option" "obj option" "fn option"
  | CallScheduleRecurrenceJob string obj "fn option" "obj option" "fn option"
  | CallQueueJob IJob
  | CallCancelJob string
  | CallCancelJobs
  | Fire handle
  | Resolve nat bool

fun apply_event :: "obj \<Rightarrow> event \<Rightarrow> state \<Rightarrow> outcome \<times> state" where
  "apply_event d (CallScheduleCronJob key cronv cb config tryLock) s =
     scheduleCronJob d key cronv cb config tryLock s"
| "apply_event d (CallScheduleIntervalJob key ival cb config tryLock) s =
     scheduleIntervalJob d key ival cb config tryLock s"
| "apply_event d (CallScheduleTimeoutJob key tmo cb config tryLock) s =
     scheduleTimeoutJob d key tmo cb config tryLock s"
| "apply_event d (CallScheduleRecurrenceJob key rule cb config tryLock) s =
     scheduleRecurrenceJob d key rule cb config tryLock s"
| "apply_event d (CallQueueJob job) s = queueJob d job s"
| "apply_event d (CallCancelJob key) s = cancelJob key s"
| "apply_event d CallCancelJobs s = cancelJobs s"
| "apply_event d (Fire h) s = fire h s"
| "apply_event d (Resolve e needStop) s = resume e needStop s"

text \<open>The state after a history, from a given state.\<close>

fun run :: "obj \<Rightarrow> event list \<Rightarrow> state \<Rightarrow> state" where
  "run d [] s = s"
| "run d (ev # evs) s = run d evs (snd (apply_event d ev s))"

section \<open>Notions used by the properties\<close>

text \<open>
  The trigger-source handle a job of each kind holds: \<^verbatim>\<open>cancelJob\<close> cancels the
  \<^verbatim>\<open>instance\<close> of a cron job and clears the \<^verbatim>\<open>timer\<close> of an interval or timeout job.
\<close>

definition job_handle :: "IJob \<Rightarrow> handle option" where
  "job_handle j = (case job_type j of cron \<Rightarrow> job_instance j | interval \<Rightarrow> job_timer j
      | timeout \<Rightarrow> job_timer j)"

text \<open>
  The \<^verbatim>\<open>configs\<close> object the schedule operation that created a job computed for its
  handler and for \<^verbatim>\<open>runJobImmediately\<close>: \<^verbatim>\<open>Object.assign({}, defaults, config)\<close> in
  \<^verbatim>\<open>scheduleCronJob\<close>, \<^verbatim>\<open>scheduleTimeoutJob\<close> and \<^verbatim>\<open>scheduleRecurrenceJob\<close>,
  \<^verbatim>\<open>Object.assign({}, config, config)\<close> in \<^verbatim>\<open>scheduleIntervalJob\<close>.
\<close>

definition job_configs :: "obj \<Rightarrow> IJob \<Rightarrow> obj" where
  "job_configs d j = (case job_type j of
       interval \<Rightarrow> Object_assign Map.empty [job_config j, job_config j]
     | cron \<Rightarrow> Object_assign Map.empty [Some d, job_config j]
     | timeout \<Rightarrow> Object_assign Map.empty [Some d, job_config j])"

text \<open>The waiting policy a job runs under: the \<^verbatim>\<open>waiting\<close> flag of those configs.\<close>

definition job_waiting :: "obj \<Rightarrow> IJob \<Rightarrow> bool" where
  "job_waiting d j = truthy (get_prop (job_configs d j) ''waiting'')"

text \<open>
  What holds of the registry, the trigger source and the runs in flight after every
  history: objects are allocated below \<open>next_addr\<close>; every registry entry points to
  a job object that holds its handle; every handle the trigger source holds belongs
  to the job registered under its closure's key, a \<^verbatim>\<open>setTimeout\<close> handle exactly to
  a timeout handler; every run in flight works on an allocated job object.
\<close>

definition registry_inv :: "obj \<Rightarrow> state \<Rightarrow> bool" where
  "registry_inv d s \<longleftrightarrow>
     (\<forall>a. heap s a \<noteq> None \<longrightarrow> a < next_addr s)
   \<and> (\<forall>k a. map_of (jobs s) k = Some a \<longrightarrow>
         (\<exists>j. heap s a = Some j \<and> job_handle j \<noteq> None \<and> job_key j = k))
   \<and> (\<forall>h t. triggers s h = Some t \<longrightarrow>
         h < next_handle s
       \<and> (tr_kind t = Once \<longleftrightarrow> cl_kind (tr_onFire t) = TimeoutHandler)
       \<and> (\<exists>a j. map_of (jobs s) (cl_key (tr_onFire t)) = Some a \<and> heap s a = Some j
              \<and> job_handle j = Some h \<and> cl_configs (tr_onFire t) = job_configs d j))
   \<and> (\<forall>e x. running s e = Some x \<longrightarrow>
         e < next_exec s
       \<and> (\<exists>j. heap s (ex_job x) = Some j \<and> ex_configs x = job_configs d j
              \<and> job_key j = ex_key x))"

text \<open>
  A job object has a run in flight; it has at most one; an assignment to
  \<^verbatim>\<open>status\<close> that changes \<^verbatim>\<open>READY\<close> to \<^verbatim>\<open>RUNNING\<close> or back.
\<close>

definition in_flight :: "state \<Rightarrow> addr \<Rightarrow> bool" where
  "in_flight s a \<longleftrightarrow> (\<exists>e x. running s e = Some x \<and> ex_job x = a)"

definition exclusive :: "state \<Rightarrow> addr \<Rightarrow> bool" where
  "exclusive s a \<longleftrightarrow>
     (\<forall>e e' x x'. running s e = Some x \<and> running s e' = Some x'
         \<and> ex_job x = a \<and> ex_job x' = a \<longrightarrow> e = e')"

definition alternates :: "job_status \<Rightarrow> job_status \<Rightarrow> bool" where
  "alternates old new \<longleftrightarrow> old = READY \<and> new = RUNNING \<or> old = RUNNING \<and> new = READY"

text \<open>
  What holds of the jobs that run under the waiting policy after every history: at
  most one run in flight, status \<^verbatim>\<open>RUNNING\<close> exactly while it is, and only
  alternating assignments in the log.
\<close>

definition waiting_inv :: "obj \<Rightarrow> state \<Rightarrow> bool" where
  "waiting_inv d s \<longleftrightarrow>
     (\<forall>a j. heap s a = Some j \<and> job_waiting d j \<longrightarrow>
        exclusive s a \<and> (job_status j = RUNNING \<longleftrightarrow> in_flight s a))
   \<and> (\<forall>a old new. (a, old, new) \<in> set (status_log s) \<longrightarrow>
        (\<exists>j. heap s a = Some j \<and> (job_waiting d j \<longrightarrow> alternates old new)))"

text \<open>An event that can put the key \<open>k\<close> into the registry.\<close>

fun registers :: "string \<Rightarrow> event \<Rightarrow> bool" where
  "registers k (CallScheduleCronJob key cronv cb config tryLock) = (key = k)"
| "registers k (CallScheduleIntervalJob key ival cb config tryLock) = (key = k)"
| "registers k (CallScheduleTimeoutJob key tmo cb config tryLock) = (key = k)"
| "registers k (CallScheduleRecurrenceJob key rule cb config tryLock) = (key = k)"
| "registers k (CallQueueJob job) = (job_key job = k)"
| "registers k ev = False"

text \<open>
  How many firings of the handle \<open>h\<close> a history delivers (a firing of a handle the
  trigger source does not hold is not delivered).
\<close>

fun deliveries :: "obj \<Rightarrow> handle \<Rightarrow> event list \<Rightarrow> state \<Rightarrow> nat" where
  "deliveries d h [] s = 0"
| "deliveries d h (ev # evs) s =
     (if ev = Fire h \<and> triggers s h \<noteq> None then 1 else 0)
     + deliveries d h evs (snd (apply_event d ev s))"

text \<open>
  An entry of a map (a held handle, a run in flight) is kept from one state to a later
  one when it is still what it was or has been removed.
\<close>

definition kept :: "('a \<Rightarrow> 'b option) \<Rightarrow> ('a \<Rightarrow> 'b option) \<Rightarrow> 'a \<Rightarrow> bool" where
  "kept m m' k \<longleftrightarrow> m' k = m k \<or> m' k = None"

text \<open>
  Histories to try the properties on: one interval job; one timeout job; one cron job
  registered with a bare rule string; one interval job under the waiting policy,
  fired once; one timeout job under the waiting policy that runs immediately.
\<close>

definition interval_history :: "event list" where
  "interval_history = [CallScheduleIntervalJob ''k'' (JNum 1000) (Some 0) None None]"

definition timeout_history :: "event list" where
  "timeout_history = [CallScheduleTimeoutJob ''t'' (JNum 50) (Some 0) None None]"

definition cron_history :: "event list" where
  "cron_history = [CallScheduleCronJob ''c'' (JStr ''* * * * *'') (Some 0) None None]"

definition waiting_history :: "event list" where
  "waiting_history =
     [CallScheduleIntervalJob ''w'' (JNum 1000) (Some 0) (Some [''waiting'' \<mapsto> JBool True]) None,
      Fire 0]"

definition stuck_timeout_history :: "event list" where
  "stuck_timeout_history =
     [CallScheduleTimeoutJob ''t'' (JNum 50) (Some 0)
        (Some [''waiting'' \<mapsto> JBool True, ''immediate'' \<mapsto> JBool True]) None]"

section \<open>The invariants hold after every history\<close>

subsection \<open>The registry invariant\<close>

lemma job_handle_status [simp]: "job_handle (j\<lparr>job_status := v\<rparr>) = job_handle j"
  by (simp add: job_handle_def split: job_kind.splits)

lemma job_configs_status [simp]: "job_configs d (j\<lparr>job_status := v\<rparr>) = job_configs d j"
  by (simp add: job_configs_def split: job_kind.splits)

lemma set_status_fields [simp]:
  "jobs (set_status a v s) = jobs s"
  "next_addr (set_status a v s) = next_addr s"
  "triggers (set_status a v s) = triggers s"
  "next_handle (set_status a v s) = next_handle s"
  "running (set_status a v s) = running s"
  "next_exec (set_status a v s) = next_exec s"
  by (simp_all add: set_status_def split: option.splits)

lemma heap_set_status:
  "heap (set_status a v s) b =
     (if b = a then map_option (\<lambda>j. j\<lparr>job_status := v\<rparr>) (heap s a) else heap s b)"
  by (simp add: set_status_def split: option.splits)

lemma registry_inv_set_status:
  assumes "registry_inv d s"
  shows "registry_inv d (set_status a v s)"
  using assms unfolding registry_inv_def
  apply (simp add: heap_set_status)
  apply (intro conjI allI impI)
     apply auto[1]
    apply fastforce
   apply fastforce
  apply fastforce
  done

lemma jobs_get_Some:
  "jobs_get s key = Some (a, j) \<longleftrightarrow> map_of (jobs s) key = Some a \<and> heap s a = Some j"
  by (auto simp: jobs_get_def split: option.splits)

lemma registry_inv_start_run:
  assumes "registry_inv d s" and "heap s a = Some j" and "configs = job_configs d j"
    and "job_key j = key"
  shows "registry_inv d (snd (start_run a key configs cb tryLock r s))"
proof -
  have inv1: "registry_inv d (set_status a RUNNING s)"
    using assms(1) by (rule registry_inv_set_status)
  have h1: "heap (set_status a RUNNING s) a = Some (j\<lparr>job_status := RUNNING\<rparr>)"
    using assms(2) by (simp add: heap_set_status)
  show ?thesis
    using inv1 h1 assms(3,4) unfolding registry_inv_def start_run_def Let_def
    by (auto simp: less_Suc_eq)
qed

lemma registry_inv_guarded_handler:
  assumes "registry_inv d s"
    and "\<And>a j. jobs_get s key = Some (a, j) \<Longrightarrow> configs = job_configs d j"
  shows "registry_inv d (snd (guarded_handler r key configs cb tryLock s))"
proof (cases "jobs_get s key")
  case None
  then show ?thesis using assms(1) by (simp add: guarded_handler_def)
next
  case (Some p)
  obtain a j where p: "p = (a, j)" by (cases p)
  have hj: "heap s a = Some j" and mj: "map_of (jobs s) key = Some a"
    using Some p by (simp_all add: jobs_get_Some)
  have kj: "job_key j = key"
    using assms(1) hj mj unfolding registry_inv_def by fastforce
  have cj: "configs = job_configs d j" using assms(2) Some p by simp
  show ?thesis
    using Some p assms(1) registry_inv_start_run [OF assms(1) hj cj kj]
    by (simp add: guarded_handler_def)
qed

lemma registry_inv_cron_handler:
  assumes "registry_inv d s"
    and "\<And>a j. jobs_get s key = Some (a, j) \<Longrightarrow> configs = job_configs d j"
  shows "registry_inv d (snd (cron_handler key configs cb tryLock s))"
proof (cases "jobs_get s key")
  case None
  then show ?thesis using assms(1) by (simp add: cron_handler_def)
next
  case (Some p)
  obtain a j where p: "p = (a, j)" by (cases p)
  have hj: "heap s a = Some j" and mj: "map_of (jobs s) key = Some a"
    using Some p by (simp_all add: jobs_get_Some)
  have kj: "job_key j = key"
    using assms(1) hj mj unfolding registry_inv_def by fastforce
  have cj: "configs = job_configs d j" using assms(2) Some p by simp
  show ?thesis
    using Some p assms(1) registry_inv_start_run [OF assms(1) hj cj kj]
    by (simp add: cron_handler_def)
qed

lemma release_trigger_fields [simp]:
  "jobs (release_trigger h s) = jobs s"
  "heap (release_trigger h s) = heap s"
  "next_addr (release_trigger h s) = next_addr s"
  "triggers (release_trigger h s) = (triggers s)(h := None)"
  "next_handle (release_trigger h s) = next_handle s"
  "running (release_trigger h s) = running s"
  "next_exec (release_trigger h s) = next_exec s"
  "status_log (release_trigger h s) = status_log s"
  by (simp_all add: release_trigger_def)

lemma jobs_get_release_trigger [simp]: "jobs_get (release_trigger h s) key = jobs_get s key"
  by (simp add: jobs_get_def split: option.splits)

lemma registry_inv_release_spent:
  assumes "registry_inv d s"
  shows "registry_inv d (release_trigger h s)"
  using assms unfolding registry_inv_def by simp

lemma registry_inv_call_handler:
  assumes "registry_inv d s" and "triggers s h = Some t"
  shows "registry_inv d (snd (call_handler (tr_onFire t) s))"
    and "registry_inv d (snd (call_handler (tr_onFire t) (release_trigger h s)))"
proof -
  have c: "\<And>a j. jobs_get s (cl_key (tr_onFire t)) = Some (a, j) \<Longrightarrow>
      cl_configs (tr_onFire t) = job_configs d j"
    using assms unfolding registry_inv_def jobs_get_Some by fastforce
  have c': "\<And>a j. jobs_get (release_trigger h s) (cl_key (tr_onFire t)) = Some (a, j) \<Longrightarrow>
      cl_configs (tr_onFire t) = job_configs d j"
    using c by simp
  show "registry_inv d (snd (call_handler (tr_onFire t) s))"
    using registry_inv_cron_handler [OF assms(1) c] registry_inv_guarded_handler [OF assms(1) c]
    by (simp add: call_handler_def interval_handler_def timeout_handler_def
        split: handler_kind.splits)
  show "registry_inv d (snd (call_handler (tr_onFire t) (release_trigger h s)))"
    using registry_inv_cron_handler [OF registry_inv_release_spent [OF assms(1)] c']
      registry_inv_guarded_handler [OF registry_inv_release_spent [OF assms(1)] c']
    by (simp add: call_handler_def interval_handler_def timeout_handler_def
        split: handler_kind.splits)
qed

lemma registry_inv_fire:
  assumes "registry_inv d s"
  shows "registry_inv d (snd (fire h s))"
  using assms registry_inv_call_handler [OF assms]
  by (simp add: fire_def split: option.splits)

lemma cancelJob_absent:
  assumes "jobs_get s key = None"
  shows "cancelJob key s = (Returned, s)"
  using assms by (simp add: cancelJob_def)

lemma cancelJob_present:
  assumes "jobs_get s key = Some (a, j)" and "job_handle j = Some h"
  shows "cancelJob key s =
     (Returned, s\<lparr>triggers := (triggers s)(h := None), jobs := AList.delete key (jobs s)\<rparr>)"
  using assms
  by (simp add: cancelJob_def job_handle_def release_trigger_def split: job_kind.splits)

lemma registry_inv_cancelJob:
  assumes "registry_inv d s"
  shows "registry_inv d (snd (cancelJob key s))"
proof (cases "jobs_get s key")
  case None
  then show ?thesis using assms by (simp add: cancelJob_absent)
next
  case (Some p)
  obtain a j where p: "p = (a, j)" by (cases p)
  have hj: "heap s a = Some j" and mj: "map_of (jobs s) key = Some a"
    using Some p by (simp_all add: jobs_get_Some)
  obtain h where h: "job_handle j = Some h"
    using assms hj mj unfolding registry_inv_def by fastforce
  have eq: "cancelJob key s =
     (Returned, s\<lparr>triggers := (triggers s)(h := None), jobs := AList.delete key (jobs s)\<rparr>)"
    using Some p h by (simp add: cancelJob_present)
  have other: "\<And>h' t. triggers s h' = Some t \<Longrightarrow> h' \<noteq> h \<Longrightarrow> cl_key (tr_onFire t) \<noteq> key"
  proof
    fix h' t assume t: "triggers s h' = Some t" and ne: "h' \<noteq> h"
      and k: "cl_key (tr_onFire t) = key"
    from assms t obtain a' j' where "map_of (jobs s) (cl_key (tr_onFire t)) = Some a'"
      "heap s a' = Some j'" "job_handle j' = Some h'"
      unfolding registry_inv_def by blast
    with k mj hj h ne show False by simp
  qed
  show ?thesis
    unfolding eq using assms other
    unfolding registry_inv_def
    by (auto simp: delete_conv)
qed

lemma cancelJob_Returned:
  assumes "registry_inv d s"
  shows "fst (cancelJob key s) = Returned"
proof (cases "jobs_get s key")
  case None
  then show ?thesis by (simp add: cancelJob_absent)
next
  case (Some p)
  obtain a j where p: "p = (a, j)" by (cases p)
  have hj: "heap s a = Some j" and mj: "map_of (jobs s) key = Some a"
    using Some p by (simp_all add: jobs_get_Some)
  obtain h where h: "job_handle j = Some h"
    using assms hj mj unfolding registry_inv_def by fastforce
  show ?thesis using Some p h by (simp add: cancelJob_present)
qed

lemma registry_inv_cancel_each:
  assumes "registry_inv d s"
  shows "registry_inv d (snd (cancel_each keys s))"
  using assms
proof (induction keys arbitrary: s)
  case Nil
  then show ?case by simp
next
  case (Cons key keys)
  have i: "registry_inv d (snd (cancelJob key s))"
    using Cons.prems by (rule registry_inv_cancelJob)
  obtain out s' where c: "cancelJob key s = (out, s')" by (cases "cancelJob key s")
  show ?case
    using i c Cons.IH [of s'] by (cases out) simp_all
qed

lemma registry_inv_resume:
  assumes "registry_inv d s"
  shows "registry_inv d (snd (resume e needStop s))"
proof (cases "running s e")
  case None
  then show ?thesis using assms by (simp add: resume_def)
next
  case (Some x)
  have "registry_inv d (s\<lparr>running := (running s)(e := None)\<rparr>)"
    using assms unfolding registry_inv_def by simp
  then have i: "registry_inv d (set_status (ex_job x) READY (s\<lparr>running := (running s)(e := None)\<rparr>))"
    by (rule registry_inv_set_status)
  show ?thesis
    using Some i registry_inv_cancelJob [OF i]
    by (simp add: resume_def Let_def split: resumption.splits)
qed

lemma registry_inv_register_add:
  assumes inv: "registry_inv d s" and absent: "map_of (jobs s) key = None"
    and c: "cl_key c = key" "cl_configs c = job_configs d j"
    and j: "job_key j = key" "job_handle j = Some (next_handle s)"
    and k: "k = Once \<longleftrightarrow> cl_kind c = TimeoutHandler"
  shows "registry_inv d
     (s\<lparr>triggers := (triggers s)(next_handle s \<mapsto> \<lparr>tr_kind = k, tr_rule = r, tr_onFire = c\<rparr>),
        next_handle := Suc (next_handle s),
        jobs := AList.update key (next_addr s) (jobs s),
        heap := (heap s)(next_addr s \<mapsto> j),
        next_addr := Suc (next_addr s)\<rparr>)"
proof -
  have p1: "\<And>a. heap s a \<noteq> None \<Longrightarrow> a < next_addr s"
    using inv unfolding registry_inv_def by blast
  have fresh: "\<And>a j'. heap s a = Some j' \<Longrightarrow> a \<noteq> next_addr s"
    using p1 by fastforce
  have p2: "\<And>k' a. map_of (jobs s) k' = Some a \<Longrightarrow>
      \<exists>j'. heap s a = Some j' \<and> job_handle j' \<noteq> None \<and> job_key j' = k'"
    using inv unfolding registry_inv_def by blast
  have p3: "\<And>h t. triggers s h = Some t \<Longrightarrow> h < next_handle s
       \<and> (tr_kind t = Once \<longleftrightarrow> cl_kind (tr_onFire t) = TimeoutHandler)
       \<and> (\<exists>a j'. map_of (jobs s) (cl_key (tr_onFire t)) = Some a \<and> heap s a = Some j'
              \<and> job_handle j' = Some h \<and> cl_configs (tr_onFire t) = job_configs d j')"
    using inv unfolding registry_inv_def by blast
  have p4: "\<And>e x. running s e = Some x \<Longrightarrow> e < next_exec s
       \<and> (\<exists>j'. heap s (ex_job x) = Some j' \<and> ex_configs x = job_configs d j'
              \<and> job_key j' = ex_key x)"
    using inv unfolding registry_inv_def by blast
  have q1: "\<And>a. ((heap s)(next_addr s \<mapsto> j)) a \<noteq> None \<Longrightarrow> a < Suc (next_addr s)"
    using p1 by (simp add: less_Suc_eq split: if_splits)
  have q2: "\<And>k' a. map_of (AList.update key (next_addr s) (jobs s)) k' = Some a \<Longrightarrow>
      \<exists>j'. ((heap s)(next_addr s \<mapsto> j)) a = Some j' \<and> job_handle j' \<noteq> None \<and> job_key j' = k'"
  proof -
    fix k' a assume m: "map_of (AList.update key (next_addr s) (jobs s)) k' = Some a"
    show "\<exists>j'. ((heap s)(next_addr s \<mapsto> j)) a = Some j' \<and> job_handle j' \<noteq> None \<and> job_key j' = k'"
    proof (cases "k' = key")
      case True
      then show ?thesis using m j by (simp add: update_conv')
    next
      case False
      then have "map_of (jobs s) k' = Some a" using m by (simp add: update_conv')
      from p2 [OF this] obtain j' where "heap s a = Some j'" "job_handle j' \<noteq> None" "job_key j' = k'"
        by blast
      then show ?thesis using fresh [of a j'] by simp
    qed
  qed
  have q3: "\<And>h t. ((triggers s)(next_handle s \<mapsto> \<lparr>tr_kind = k, tr_rule = r, tr_onFire = c\<rparr>)) h = Some t \<Longrightarrow>
       h < Suc (next_handle s)
       \<and> (tr_kind t = Once \<longleftrightarrow> cl_kind (tr_onFire t) = TimeoutHandler)
       \<and> (\<exists>a j'. map_of (AList.update key (next_addr s) (jobs s)) (cl_key (tr_onFire t)) = Some a
              \<and> ((heap s)(next_addr s \<mapsto> j)) a = Some j'
              \<and> job_handle j' = Some h \<and> cl_configs (tr_onFire t) = job_configs d j')"
  proof -
    fix h t
    assume t: "((triggers s)(next_handle s \<mapsto> \<lparr>tr_kind = k, tr_rule = r, tr_onFire = c\<rparr>)) h = Some t"
    show "h < Suc (next_handle s)
       \<and> (tr_kind t = Once \<longleftrightarrow> cl_kind (tr_onFire t) = TimeoutHandler)
       \<and> (\<exists>a j'. map_of (AList.update key (next_addr s) (jobs s)) (cl_key (tr_onFire t)) = Some a
              \<and> ((heap s)(next_addr s \<mapsto> j)) a = Some j'
              \<and> job_handle j' = Some h \<and> cl_configs (tr_onFire t) = job_configs d j')"
    proof (cases "h = next_handle s")
      case True
      then have "t = \<lparr>tr_kind = k, tr_rule = r, tr_onFire = c\<rparr>" using t by simp
      then show ?thesis using True c j k by (simp add: update_conv')
    next
      case False
      then have t': "triggers s h = Some t" using t by simp
      from p3 [OF t'] obtain a j' where o: "h < next_handle s"
        "tr_kind t = Once \<longleftrightarrow> cl_kind (tr_onFire t) = TimeoutHandler"
        "map_of (jobs s) (cl_key (tr_onFire t)) = Some a" "heap s a = Some j'"
        "job_handle j' = Some h" "cl_configs (tr_onFire t) = job_configs d j'"
        by blast
      have ne: "cl_key (tr_onFire t) \<noteq> key" using o(3) absent by auto
      show ?thesis using o ne fresh [of a j'] by (simp add: update_conv')
    qed
  qed
  have q4: "\<And>e x. running s e = Some x \<Longrightarrow> e < next_exec s
       \<and> (\<exists>j'. ((heap s)(next_addr s \<mapsto> j)) (ex_job x) = Some j' \<and> ex_configs x = job_configs d j'
              \<and> job_key j' = ex_key x)"
  proof -
    fix e x assume "running s e = Some x"
    from p4 [OF this] obtain j' where o: "e < next_exec s" "heap s (ex_job x) = Some j'"
      "ex_configs x = job_configs d j'" "job_key j' = ex_key x" by blast
    show "e < next_exec s
       \<and> (\<exists>j'. ((heap s)(next_addr s \<mapsto> j)) (ex_job x) = Some j' \<and> ex_configs x = job_configs d j'
              \<and> job_key j' = ex_key x)"
      using o fresh [of "ex_job x" j'] by simp
  qed
  show ?thesis
    unfolding registry_inv_def
    apply (simp del: fun_upd_apply)
    apply (intro conjI allI impI)
          apply (use q1 q2 q3 q4 in blast)+
    done
qed

lemma registry_inv_register_addJob:
  assumes inv: "registry_inv d s" and absent: "map_of (jobs s) key = None"
    and c: "cl_key c = key"
      "cl_configs c = (case ty of
           interval \<Rightarrow> Object_assign Map.empty [config, config]
         | cron \<Rightarrow> Object_assign Map.empty [Some d, config]
         | timeout \<Rightarrow> Object_assign Map.empty [Some d, config])"
    and h: "(case ty of cron \<Rightarrow> inst | interval \<Rightarrow> tm | timeout \<Rightarrow> tm) = Some (next_handle s)"
    and k: "k = Once \<longleftrightarrow> cl_kind c = TimeoutHandler"
    and s2: "s2 = addJob key ty config inst tm (snd (register_trigger k r c s))"
  shows "registry_inv d s2"
    and "\<And>a j. jobs_get s2 key = Some (a, j) \<Longrightarrow> cl_configs c = job_configs d j"
proof -
  let ?j = "\<lparr>job_key = key, job_type = ty, job_config = config,
                  job_method = None, job_tryLock = None, job_timer = tm,
                  job_instance = inst, job_status = READY\<rparr>"
  have eq: "s2 = s\<lparr>triggers := (triggers s)(next_handle s \<mapsto> \<lparr>tr_kind = k, tr_rule = r, tr_onFire = c\<rparr>),
        next_handle := Suc (next_handle s),
        jobs := AList.update key (next_addr s) (jobs s),
        heap := (heap s)(next_addr s \<mapsto> ?j),
        next_addr := Suc (next_addr s)\<rparr>"
    unfolding s2 by (simp add: addJob_def register_trigger_def Let_def)
  have cj: "cl_configs c = job_configs d ?j"
    using c(2) by (simp add: job_configs_def split: job_kind.splits)
  have hj: "job_handle ?j = Some (next_handle s)"
    using h by (simp add: job_handle_def split: job_kind.splits)
  show "registry_inv d s2"
    unfolding eq
    by (rule registry_inv_register_add [OF inv absent c(1) cj _ hj k]) simp
  show "\<And>a j. jobs_get s2 key = Some (a, j) \<Longrightarrow> cl_configs c = job_configs d j"
    using cj unfolding eq by (auto simp: jobs_get_Some update_conv')
qed

lemma registry_inv_run_if_immediate:
  assumes "registry_inv d s"
    and "\<And>a j. jobs_get s key = Some (a, j) \<Longrightarrow> configs = job_configs d j"
  shows "registry_inv d (snd (run_if_immediate key configs cb tryLock s))"
  using assms(1) registry_inv_guarded_handler [OF assms]
  by (simp add: run_if_immediate_def runJobImmediately_def)

lemma scheduleCronJob_fresh:
  assumes "map_of (jobs s) key = None"
  shows "scheduleCronJob d key cronv cb config tryLock s =
     run_if_immediate key (Object_assign Map.empty [Some d, config]) cb tryLock
       (addJob key cron config (Some (next_handle s)) None
         (snd (register_trigger Recurring
           (JObj (if typeof_object cronv then spread cronv
              else [''start'' \<mapsto> (case config of None \<Rightarrow> JNull | Some c \<Rightarrow> get_prop c ''startTime''),
                    ''end'' \<mapsto> (case config of None \<Rightarrow> JNull | Some c \<Rightarrow> get_prop c ''endTime''),
                    ''rule'' \<mapsto> cronv]))
           \<lparr>cl_kind = CronHandler, cl_key = key,
            cl_configs = Object_assign Map.empty [Some d, config],
            cl_cb = cb, cl_tryLock = tryLock\<rparr> s)))"
  using assms
  by (simp add: scheduleCronJob_def assertJobNotExist_def Let_def register_trigger_def)

lemma scheduleIntervalJob_fresh:
  assumes "map_of (jobs s) key = None"
  shows "scheduleIntervalJob d key ival cb config tryLock s =
     run_if_immediate key (Object_assign Map.empty [config, config]) cb tryLock
       (addJob key interval config None (Some (next_handle s))
         (snd (register_trigger Repeating ival
           \<lparr>cl_kind = IntervalHandler, cl_key = key,
            cl_configs = Object_assign Map.empty [config, config],
            cl_cb = cb, cl_tryLock = tryLock\<rparr> s)))"
  using assms
  by (simp add: scheduleIntervalJob_def assertJobNotExist_def Let_def register_trigger_def)

lemma scheduleTimeoutJob_fresh:
  assumes "map_of (jobs s) key = None"
  shows "scheduleTimeoutJob d key tmo cb config tryLock s =
     run_if_immediate key (Object_assign Map.empty [Some d, config]) cb tryLock
       (addJob key timeout config None (Some (next_handle s))
         (snd (register_trigger Once tmo
           \<lparr>cl_kind = TimeoutHandler, cl_key = key,
            cl_configs = Object_assign Map.empty [Some d, config],
            cl_cb = cb, cl_tryLock = tryLock\<rparr> s)))"
  using assms
  by (simp add: scheduleTimeoutJob_def assertJobNotExist_def Let_def register_trigger_def)

lemma scheduleRecurrenceJob_fresh:
  assumes "map_of (jobs s) key = None"
  shows "scheduleRecurrenceJob d key rule cb config tryLock s =
     run_if_immediate key (Object_assign Map.empty [Some d, config]) cb tryLock
       (addJob key cron config (Some (next_handle s)) None
         (snd (register_trigger Recurring (JObj (RecurrenceRule rule))
           \<lparr>cl_kind = RecurrenceHandler, cl_key = key,
            cl_configs = Object_assign Map.empty [Some d, config],
            cl_cb = cb, cl_tryLock = tryLock\<rparr> s)))"
  using assms
  by (simp add: scheduleRecurrenceJob_def assertJobNotExist_def Let_def register_trigger_def)

lemma schedule_present:
  assumes "map_of (jobs s) key \<noteq> None"
  shows "snd (scheduleCronJob d key cronv cb config tryLock s) = s"
    and "snd (scheduleIntervalJob d key ival cb config tryLock s) = s"
    and "snd (scheduleTimeoutJob d key tmo cb config tryLock s) = s"
    and "snd (scheduleRecurrenceJob d key rule cb config tryLock s) = s"
  using assms
  by (simp_all add: scheduleCronJob_def scheduleIntervalJob_def scheduleTimeoutJob_def
      scheduleRecurrenceJob_def assertJobNotExist_def)

lemma registry_inv_schedule_shape:
  assumes inv: "registry_inv d s" and absent: "map_of (jobs s) key = None"
    and c: "cl_key c = key"
      "cl_configs c = (case ty of
           interval \<Rightarrow> Object_assign Map.empty [config, config]
         | cron \<Rightarrow> Object_assign Map.empty [Some d, config]
         | timeout \<Rightarrow> Object_assign Map.empty [Some d, config])"
    and h: "(case ty of cron \<Rightarrow> inst | interval \<Rightarrow> tm | timeout \<Rightarrow> tm) = Some (next_handle s)"
    and k: "k = Once \<longleftrightarrow> cl_kind c = TimeoutHandler"
  shows "registry_inv d (snd (run_if_immediate key (cl_configs c) cb tryLock
           (addJob key ty config inst tm (snd (register_trigger k r c s)))))"
  by (rule registry_inv_run_if_immediate)
    (rule registry_inv_register_addJob [OF inv absent c h k refl])+

lemma registry_inv_scheduleCronJob:
  assumes "registry_inv d s"
  shows "registry_inv d (snd (scheduleCronJob d key cronv cb config tryLock s))"
proof (cases "map_of (jobs s) key")
  case None
  show ?thesis
    unfolding scheduleCronJob_fresh [OF None]
    using registry_inv_schedule_shape [OF assms None, where ty = cron and k = Recurring
        and c = "\<lparr>cl_kind = CronHandler, cl_key = key,
            cl_configs = Object_assign Map.empty [Some d, config],
            cl_cb = cb, cl_tryLock = tryLock\<rparr>" and config = config
        and inst = "Some (next_handle s)"]
    by simp
next
  case (Some a)
  then show ?thesis using assms by (simp add: schedule_present)
qed

lemma registry_inv_scheduleIntervalJob:
  assumes "registry_inv d s"
  shows "registry_inv d (snd (scheduleIntervalJob d key ival cb config tryLock s))"
proof (cases "map_of (jobs s) key")
  case None
  show ?thesis
    unfolding scheduleIntervalJob_fresh [OF None]
    using registry_inv_schedule_shape [OF assms None, where ty = interval and k = Repeating
        and c = "\<lparr>cl_kind = IntervalHandler, cl_key = key,
            cl_configs = Object_assign Map.empty [config, config],
            cl_cb = cb, cl_tryLock = tryLock\<rparr>" and config = config
        and tm = "Some (next_handle s)"]
    by simp
next
  case (Some a)
  then show ?thesis using assms by (simp add: schedule_present)
qed

lemma registry_inv_scheduleTimeoutJob:
  assumes "registry_inv d s"
  shows "registry_inv d (snd (scheduleTimeoutJob d key tmo cb config tryLock s))"
proof (cases "map_of (jobs s) key")
  case None
  show ?thesis
    unfolding scheduleTimeoutJob_fresh [OF None]
    using registry_inv_schedule_shape [OF assms None, where ty = timeout and k = Once
        and c = "\<lparr>cl_kind = TimeoutHandler, cl_key = key,
            cl_configs = Object_assign Map.empty [Some d, config],
            cl_cb = cb, cl_tryLock = tryLock\<rparr>" and config = config
        and tm = "Some (next_handle s)"]
    by simp
next
  case (Some a)
  then show ?thesis using assms by (simp add: schedule_present)
qed

lemma registry_inv_scheduleRecurrenceJob:
  assumes "registry_inv d s"
  shows "registry_inv d (snd (scheduleRecurrenceJob d key rule cb config tryLock s))"
proof (cases "map_of (jobs s) key")
  case None
  show ?thesis
    unfolding scheduleRecurrenceJob_fresh [OF None]
    using registry_inv_schedule_shape [OF assms None, where ty = cron and k = Recurring
        and c = "\<lparr>cl_kind = RecurrenceHandler, cl_key = key,
            cl_configs = Object_assign Map.empty [Some d, config],
            cl_cb = cb, cl_tryLock = tryLock\<rparr>" and config = config
        and inst = "Some (next_handle s)"]
    by simp
next
  case (Some a)
  then show ?thesis using assms by (simp add: schedule_present)
qed

lemma registry_inv_queueJob:
  assumes "registry_inv d s"
  shows "registry_inv d (snd (queueJob d job s))"
  using assms registry_inv_scheduleCronJob [OF assms] registry_inv_scheduleIntervalJob [OF assms]
    registry_inv_scheduleTimeoutJob [OF assms]
  by (simp add: queueJob_def Let_def split: job_kind.splits option.splits)

lemma registry_inv_apply_event:
  assumes "registry_inv d s"
  shows "registry_inv d (snd (apply_event d ev s))"
  using assms
  by (cases ev)
    (simp_all add: registry_inv_scheduleCronJob registry_inv_scheduleIntervalJob
      registry_inv_scheduleTimeoutJob registry_inv_scheduleRecurrenceJob registry_inv_queueJob
      registry_inv_cancelJob registry_inv_cancel_each cancelJobs_def registry_inv_fire
      registry_inv_resume)

lemma registry_inv_init: "registry_inv d init"
  by (simp add: registry_inv_def init_def)

lemma registry_inv_run_from:
  assumes "registry_inv d s"
  shows "registry_inv d (run d evs s)"
  using assms
  by (induction evs arbitrary: s) (simp_all add: registry_inv_apply_event)

lemma registry_inv_run: "registry_inv d (run d evs init)"
  by (rule registry_inv_run_from [OF registry_inv_init])

subsection \<open>What each operation leaves alone\<close>

lemma start_run_fields [simp]:
  "jobs (snd (start_run a key configs cb tryLock r s)) = jobs s"
  "triggers (snd (start_run a key configs cb tryLock r s)) = triggers s"
  "next_handle (snd (start_run a key configs cb tryLock r s)) = next_handle s"
  "next_addr (snd (start_run a key configs cb tryLock r s)) = next_addr s"
  "fst (start_run a key configs cb tryLock r s) = Awaiting (next_exec s)"
  "running (snd (start_run a key configs cb tryLock r s)) =
     (running s)(next_exec s \<mapsto> \<lparr>ex_configs = configs, ex_key = key, ex_cb = cb,
        ex_tryLock = tryLock, ex_job = a, ex_resume = r\<rparr>)"
  "next_exec (snd (start_run a key configs cb tryLock r s)) = Suc (next_exec s)"
  by (simp_all add: start_run_def Let_def)

lemma handler_fields [simp]:
  "jobs (snd (guarded_handler r key configs cb tryLock s)) = jobs s"
  "triggers (snd (guarded_handler r key configs cb tryLock s)) = triggers s"
  "next_handle (snd (guarded_handler r key configs cb tryLock s)) = next_handle s"
  "jobs (snd (cron_handler key configs cb tryLock s)) = jobs s"
  "triggers (snd (cron_handler key configs cb tryLock s)) = triggers s"
  "next_handle (snd (cron_handler key configs cb tryLock s)) = next_handle s"
  by (simp_all add: guarded_handler_def cron_handler_def split: option.splits)

lemma call_handler_fields [simp]:
  "jobs (snd (call_handler c s)) = jobs s"
  "triggers (snd (call_handler c s)) = triggers s"
  "next_handle (snd (call_handler c s)) = next_handle s"
  by (simp_all add: call_handler_def interval_handler_def timeout_handler_def
      split: handler_kind.splits)

lemma fire_fields:
  "jobs (snd (fire h s)) = jobs s"
  "next_handle (snd (fire h s)) = next_handle s"
  "triggers (snd (fire h s)) =
     (case triggers s h of None \<Rightarrow> triggers s
      | Some t \<Rightarrow> if tr_kind t = Once then (triggers s)(h := None) else triggers s)"
  by (simp_all add: fire_def split: option.splits)

lemma guarded_handler_cases:
  "guarded_handler r key configs cb tryLock s = (Returned, s)
   \<or> (\<exists>a job. jobs_get s key = Some (a, job)
          \<and> \<not> (truthy (get_prop configs ''waiting'') \<and> job_status job \<noteq> READY)
          \<and> guarded_handler r key configs cb tryLock s = start_run a key configs cb tryLock r s)"
  by (auto simp: guarded_handler_def split: option.splits)

lemma registry_inv_jobD:
  assumes "registry_inv d s" and "map_of (jobs s) k = Some a"
  shows "\<exists>j h. heap s a = Some j \<and> job_handle j = Some h \<and> job_key j = k"
  using assms unfolding registry_inv_def by fastforce

lemma registry_inv_triggerD:
  assumes "registry_inv d s" and "triggers s h = Some t"
  shows "h < next_handle s"
    and "tr_kind t = Once \<longleftrightarrow> cl_kind (tr_onFire t) = TimeoutHandler"
    and "\<exists>a j. map_of (jobs s) (cl_key (tr_onFire t)) = Some a \<and> heap s a = Some j
          \<and> job_handle j = Some h \<and> cl_configs (tr_onFire t) = job_configs d j"
  using assms unfolding registry_inv_def by blast+

lemma registry_inv_jobs_get:
  assumes "registry_inv d s" and "jobs_get s k = None"
  shows "map_of (jobs s) k = None"
proof (cases "map_of (jobs s) k")
  case None
  then show ?thesis .
next
  case (Some a)
  from registry_inv_jobD [OF assms(1) Some] obtain j where "heap s a = Some j" by blast
  with Some assms(2) show ?thesis by (simp add: jobs_get_def)
qed

lemma resume_cancels:
  assumes inv: "registry_inv d s" and x: "running s e = Some x"
    and c: "ex_resume x = CancelAlways \<or> needStop"
  shows "fst (resume e needStop s) = Returned"
    and "map_of (jobs (snd (resume e needStop s))) (ex_key x) = None"
    and "\<And>h t. triggers (snd (resume e needStop s)) h = Some t \<Longrightarrow> cl_key (tr_onFire t) \<noteq> ex_key x"
proof -
  let ?s1 = "set_status (ex_job x) READY (s\<lparr>running := (running s)(e := None)\<rparr>)"
  have "registry_inv d (s\<lparr>running := (running s)(e := None)\<rparr>)"
    using inv unfolding registry_inv_def by simp
  then have i1: "registry_inv d ?s1" by (rule registry_inv_set_status)
  have eq: "resume e needStop s = cancelJob (ex_key x) ?s1"
    using x c by (auto simp: resume_def Let_def split: resumption.splits)
  show "fst (resume e needStop s) = Returned"
    unfolding eq by (rule cancelJob_Returned [OF i1])
  have i2: "registry_inv d (snd (cancelJob (ex_key x) ?s1))"
    by (rule registry_inv_cancelJob [OF i1])
  show m: "map_of (jobs (snd (resume e needStop s))) (ex_key x) = None"
  proof (cases "jobs_get ?s1 (ex_key x)")
    case None
    then have "map_of (jobs ?s1) (ex_key x) = None"
      by (rule registry_inv_jobs_get [OF i1])
    then show ?thesis unfolding eq using None by (simp add: cancelJob_absent)
  next
    case (Some p)
    obtain a j where p: "p = (a, j)" by (cases p)
    have "map_of (jobs ?s1) (ex_key x) = Some a" and hj: "heap ?s1 a = Some j"
      using Some p by (simp_all only: jobs_get_Some)
    from registry_inv_jobD [OF i1 this(1)] hj obtain h where "job_handle j = Some h"
      by auto
    then show ?thesis unfolding eq using Some p
      by (simp add: cancelJob_present delete_conv)
  qed
  show "\<And>h t. triggers (snd (resume e needStop s)) h = Some t \<Longrightarrow> cl_key (tr_onFire t) \<noteq> ex_key x"
  proof -
    fix h t assume "triggers (snd (resume e needStop s)) h = Some t"
    then have "triggers (snd (cancelJob (ex_key x) ?s1)) h = Some t" unfolding eq .
    from registry_inv_triggerD(3) [OF i2 this] m
    show "cl_key (tr_onFire t) \<noteq> ex_key x" unfolding eq by auto
  qed
qed

lemma run_if_immediate_fields [simp]:
  "jobs (snd (run_if_immediate key configs cb tryLock s)) = jobs s"
  "triggers (snd (run_if_immediate key configs cb tryLock s)) = triggers s"
  "next_handle (snd (run_if_immediate key configs cb tryLock s)) = next_handle s"
  by (simp_all add: run_if_immediate_def runJobImmediately_def)

lemma addJob_fields [simp]:
  "jobs (addJob key ty config inst tm s) = AList.update key (next_addr s) (jobs s)"
  "triggers (addJob key ty config inst tm s) = triggers s"
  "next_handle (addJob key ty config inst tm s) = next_handle s"
  by (simp_all add: addJob_def Let_def)

lemma register_trigger_fields [simp]:
  "jobs (snd (register_trigger k r c s)) = jobs s"
  "next_addr (snd (register_trigger k r c s)) = next_addr s"
  "triggers (snd (register_trigger k r c s)) =
     (triggers s)(next_handle s \<mapsto> \<lparr>tr_kind = k, tr_rule = r, tr_onFire = c\<rparr>)"
  "next_handle (snd (register_trigger k r c s)) = Suc (next_handle s)"
  by (simp_all add: register_trigger_def Let_def)

lemma schedule_jobs:
  "jobs (snd (scheduleCronJob d key cronv cb config tryLock s)) =
     (if map_of (jobs s) key = None then AList.update key (next_addr s) (jobs s) else jobs s)"
  "jobs (snd (scheduleIntervalJob d key ival cb config tryLock s)) =
     (if map_of (jobs s) key = None then AList.update key (next_addr s) (jobs s) else jobs s)"
  "jobs (snd (scheduleTimeoutJob d key tmo cb config tryLock s)) =
     (if map_of (jobs s) key = None then AList.update key (next_addr s) (jobs s) else jobs s)"
  "jobs (snd (scheduleRecurrenceJob d key rule cb config tryLock s)) =
     (if map_of (jobs s) key = None then AList.update key (next_addr s) (jobs s) else jobs s)"
  by (simp_all add: scheduleCronJob_fresh scheduleIntervalJob_fresh scheduleTimeoutJob_fresh
      scheduleRecurrenceJob_fresh schedule_present)

lemma cancelJob_shape:
  "snd (cancelJob key s) = s
   \<or> (\<exists>h. snd (cancelJob key s) = (release_trigger h s)\<lparr>jobs := AList.delete key (jobs s)\<rparr>)
   \<or> snd (cancelJob key s) = s\<lparr>jobs := AList.delete key (jobs s)\<rparr>"
  by (auto simp: cancelJob_def split: option.splits job_kind.splits)

lemma cancelJob_absent_key:
  assumes "map_of (jobs s) k = None"
  shows "map_of (jobs (snd (cancelJob key s))) k = None"
  using assms cancelJob_shape [of key s] by (auto simp: delete_conv)

lemma cancel_each_absent_key:
  assumes "map_of (jobs s) k = None"
  shows "map_of (jobs (snd (cancel_each keys s))) k = None"
  using assms
proof (induction keys arbitrary: s)
  case Nil
  then show ?case by simp
next
  case (Cons key keys)
  obtain out s' where c: "cancelJob key s = (out, s')" by (cases "cancelJob key s")
  have "map_of (jobs s') k = None"
    using cancelJob_absent_key [OF Cons.prems, of key] c by simp
  then show ?case using c Cons.IH [of s'] by (cases out) simp_all
qed

lemma resume_shape:
  "resume e needStop s = (Returned, s)
   \<or> (\<exists>x. running s e = Some x \<and>
        (resume e needStop s = (Returned, set_status (ex_job x) READY (s\<lparr>running := (running s)(e := None)\<rparr>))
       \<or> resume e needStop s = cancelJob (ex_key x) (set_status (ex_job x) READY (s\<lparr>running := (running s)(e := None)\<rparr>))))"
  by (auto simp: resume_def Let_def split: option.splits resumption.splits)

lemma resume_absent_key:
  assumes "map_of (jobs s) k = None"
  shows "map_of (jobs (snd (resume e needStop s))) k = None"
proof -
  have "\<And>x. map_of (jobs (set_status (ex_job x) READY (s\<lparr>running := (running s)(e := None)\<rparr>))) k = None"
    using assms by simp
  then show ?thesis
    using assms resume_shape [of e needStop s] cancelJob_absent_key by (metis snd_conv)
qed

lemma queueJob_shape:
  "snd (queueJob d job s) = s
   \<or> (\<exists>cronv cb config tryLock.
        snd (queueJob d job s) = snd (scheduleCronJob d (job_key job) cronv cb config tryLock s))
   \<or> (\<exists>ival cb config tryLock.
        snd (queueJob d job s) = snd (scheduleIntervalJob d (job_key job) ival cb config tryLock s))
   \<or> (\<exists>tmo cb config tryLock.
        snd (queueJob d job s) = snd (scheduleTimeoutJob d (job_key job) tmo cb config tryLock s))"
  by (simp add: queueJob_def Let_def split: job_kind.splits option.splits) blast

lemma absent_apply_event:
  assumes "map_of (jobs s) k = None" and "\<not> registers k ev"
  shows "map_of (jobs (snd (apply_event d ev s))) k = None"
proof (cases ev)
  case (CallQueueJob job)
  then have ne: "job_key job \<noteq> k" using assms(2) by simp
  have "snd (queueJob d job s) = s \<or> jobs (snd (queueJob d job s)) = jobs s
      \<or> jobs (snd (queueJob d job s)) = AList.update (job_key job) (next_addr s) (jobs s)"
    using queueJob_shape [of d job s] by (auto simp: schedule_jobs split: if_splits)
  then show ?thesis using assms(1) ne unfolding CallQueueJob apply_event.simps
    by (auto simp: update_conv')
qed (use assms in \<open>simp_all add: schedule_jobs update_conv' cancelJob_absent_key
      cancel_each_absent_key cancelJobs_def fire_fields resume_absent_key\<close>)

lemma absent_run:
  assumes "map_of (jobs s) k = None" and "\<forall>ev \<in> set evs. \<not> registers k ev"
  shows "map_of (jobs (run d evs s)) k = None"
  using assms
  by (induction evs arbitrary: s) (simp_all add: absent_apply_event)

subsection \<open>The waiting invariant\<close>

lemma job_waiting_status [simp]: "job_waiting d (j\<lparr>job_status := v\<rparr>) = job_waiting d j"
  by (simp add: job_waiting_def)

lemma waiting_inv_frame:
  assumes "waiting_inv d s" and "heap s' = heap s" and "running s' = running s"
    and "status_log s' = status_log s"
  shows "waiting_inv d s'"
  using assms(1) unfolding waiting_inv_def in_flight_def exclusive_def assms(2,3,4) .

lemma waiting_invD1:
  assumes "waiting_inv d s" and "heap s a = Some j" and "job_waiting d j"
  shows "exclusive s a" and "job_status j = RUNNING \<longleftrightarrow> in_flight s a"
proof -
  from assms(1) have "\<forall>a j. heap s a = Some j \<and> job_waiting d j \<longrightarrow>
        exclusive s a \<and> (job_status j = RUNNING \<longleftrightarrow> in_flight s a)"
    unfolding waiting_inv_def by (rule conjunct1)
  then have "exclusive s a \<and> (job_status j = RUNNING \<longleftrightarrow> in_flight s a)"
    using assms(2,3) by simp
  then show "exclusive s a" and "job_status j = RUNNING \<longleftrightarrow> in_flight s a"
    by simp_all
qed

lemma waiting_invD2:
  assumes "waiting_inv d s" and "(a, old, new) \<in> set (status_log s)"
  shows "\<exists>j. heap s a = Some j \<and> (job_waiting d j \<longrightarrow> alternates old new)"
proof -
  from assms(1) have "\<forall>a old new. (a, old, new) \<in> set (status_log s) \<longrightarrow>
        (\<exists>j. heap s a = Some j \<and> (job_waiting d j \<longrightarrow> alternates old new))"
    unfolding waiting_inv_def by (rule conjunct2)
  then show ?thesis using assms(2) by simp
qed

lemma waiting_invI:
  assumes "\<And>a j. heap s a = Some j \<Longrightarrow> job_waiting d j \<Longrightarrow>
        exclusive s a \<and> (job_status j = RUNNING \<longleftrightarrow> in_flight s a)"
    and "\<And>a old new. (a, old, new) \<in> set (status_log s) \<Longrightarrow>
        (\<exists>j. heap s a = Some j \<and> (job_waiting d j \<longrightarrow> alternates old new))"
  shows "waiting_inv d s"
  unfolding waiting_inv_def
proof (intro conjI allI impI)
  fix a j assume "heap s a = Some j \<and> job_waiting d j"
  then show "exclusive s a" and "job_status j = RUNNING \<longleftrightarrow> in_flight s a"
    using assms(1) [of a j] by simp_all
next
  fix a old new assume "(a, old, new) \<in> set (status_log s)"
  then show "\<exists>j. heap s a = Some j \<and> (job_waiting d j \<longrightarrow> alternates old new)"
    by (rule assms(2))
qed

lemma registry_inv_runningD:
  assumes "registry_inv d s" and "running s e = Some x"
  shows "e < next_exec s"
    and "\<exists>j. heap s (ex_job x) = Some j \<and> ex_configs x = job_configs d j
              \<and> job_key j = ex_key x"
  using assms unfolding registry_inv_def by blast+

lemma registry_inv_fresh_exec:
  assumes "registry_inv d s"
  shows "running s (next_exec s) = None"
proof (cases "running s (next_exec s)")
  case None
  then show ?thesis .
next
  case (Some x)
  from registry_inv_runningD(1) [OF assms Some] show ?thesis by simp
qed

lemma start_run_heap_log:
  assumes "heap s a = Some j"
  shows "heap (snd (start_run a key configs cb tryLock r s)) = (heap s)(a \<mapsto> j\<lparr>job_status := RUNNING\<rparr>)"
    and "status_log (snd (start_run a key configs cb tryLock r s)) = status_log s @ [(a, job_status j, RUNNING)]"
  using assms by (simp_all add: start_run_def Let_def set_status_def)

lemma waiting_inv_start_run:
  assumes rinv: "registry_inv d s" and winv: "waiting_inv d s"
    and hj: "heap s a = Some j"
    and guard: "\<not> (job_waiting d j \<and> job_status j \<noteq> READY)"
  shows "waiting_inv d (snd (start_run a key configs cb tryLock r s))"
proof (rule waiting_invI)
  let ?s' = "snd (start_run a key configs cb tryLock r s)"
  let ?x0 = "\<lparr>ex_configs = configs, ex_key = key, ex_cb = cb,
        ex_tryLock = tryLock, ex_job = a, ex_resume = r\<rparr>"
  have fresh: "running s (next_exec s) = None"
    by (rule registry_inv_fresh_exec [OF rinv])
  have run': "running ?s' = (running s)(next_exec s \<mapsto> ?x0)" by simp
  have heap': "heap ?s' = (heap s)(a \<mapsto> j\<lparr>job_status := RUNNING\<rparr>)"
    and log': "status_log ?s' = status_log s @ [(a, job_status j, RUNNING)]"
    using start_run_heap_log [OF hj] by blast+
  {
    fix b jb assume hb: "heap ?s' b = Some jb" and wb: "job_waiting d jb"
    show "exclusive ?s' b \<and> (job_status jb = RUNNING \<longleftrightarrow> in_flight ?s' b)"
    proof (cases "b = a")
      case True
      then have jb: "jb = j\<lparr>job_status := RUNNING\<rparr>" using hb heap' by simp
      then have wj: "job_waiting d j" using wb by simp
      then have "job_status j = READY" using guard by simp
      then have "\<not> in_flight s a"
        using waiting_invD1(2) [OF winv hj wj] by simp
      then have none: "\<And>e x. running s e = Some x \<Longrightarrow> ex_job x \<noteq> a"
        unfolding in_flight_def by blast
      have only: "\<And>e x. running ?s' e = Some x \<Longrightarrow> ex_job x = a \<Longrightarrow> e = next_exec s"
        using none unfolding run' by (auto split: if_splits)
      have u: "exclusive ?s' a"
        unfolding exclusive_def using only by blast
      have st: "job_status jb = RUNNING" using jb by simp
      have "running ?s' (next_exec s) = Some ?x0" and "ex_job ?x0 = a"
        unfolding run' by simp_all
      then have exi: "in_flight ?s' a" unfolding in_flight_def by blast
      show ?thesis
        unfolding True using u st exi by blast
    next
      case False
      then have hb': "heap s b = Some jb" using hb heap' by simp
      have fwd: "\<And>e x. ex_job x = b \<Longrightarrow> running ?s' e = Some x \<Longrightarrow> running s e = Some x"
        using False unfolding run' by (auto split: if_splits)
      have bwd: "\<And>e x. running s e = Some x \<Longrightarrow> running ?s' e = Some x"
        using fresh unfolding run' by auto
      have "exclusive s b" by (rule waiting_invD1(1) [OF winv hb' wb])
      then have u: "exclusive ?s' b"
        unfolding exclusive_def using fwd by blast
      have "in_flight ?s' b \<longleftrightarrow> in_flight s b"
        unfolding in_flight_def using fwd bwd by blast
      then show ?thesis
        using waiting_invD1(2) [OF winv hb' wb] u by blast
    qed
  }
  {
    fix b old new assume "(b, old, new) \<in> set (status_log ?s')"
    then consider "(b, old, new) \<in> set (status_log s)" | "b = a" "old = job_status j" "new = RUNNING"
      unfolding log' by auto
    then show "\<exists>jb. heap ?s' b = Some jb \<and> (job_waiting d jb \<longrightarrow> alternates old new)"
    proof cases
      case 1
      from waiting_invD2 [OF winv 1] obtain j0 where j0: "heap s b = Some j0"
        "job_waiting d j0 \<longrightarrow> alternates old new"
        by blast
      show ?thesis
      proof (cases "b = a")
        case True
        then show ?thesis using j0 hj unfolding heap' by simp
      next
        case False
        then show ?thesis using j0 unfolding heap' by simp
      qed
    next
      case 2
      then show ?thesis using guard unfolding heap' by (simp add: alternates_def)
    qed
  }
qed

lemma waiting_inv_guarded_handler:
  assumes rinv: "registry_inv d s" and winv: "waiting_inv d s"
    and cfg: "\<And>a j. jobs_get s key = Some (a, j) \<Longrightarrow> configs = job_configs d j"
  shows "waiting_inv d (snd (guarded_handler r key configs cb tryLock s))"
proof -
  from guarded_handler_cases [of r key configs cb tryLock s] show ?thesis
  proof
    assume "guarded_handler r key configs cb tryLock s = (Returned, s)"
    then show ?thesis using winv by simp
  next
    assume "\<exists>a job. jobs_get s key = Some (a, job)
          \<and> \<not> (truthy (get_prop configs ''waiting'') \<and> job_status job \<noteq> READY)
          \<and> guarded_handler r key configs cb tryLock s = start_run a key configs cb tryLock r s"
    then obtain a job where g: "jobs_get s key = Some (a, job)"
      "\<not> (truthy (get_prop configs ''waiting'') \<and> job_status job \<noteq> READY)"
      "guarded_handler r key configs cb tryLock s = start_run a key configs cb tryLock r s"
      by blast
    have hj: "heap s a = Some job" using g(1) by (simp add: jobs_get_Some)
    have "configs = job_configs d job" using cfg g(1) by simp
    then have guard: "\<not> (job_waiting d job \<and> job_status job \<noteq> READY)"
      using g(2) by (simp add: job_waiting_def)
    show ?thesis
      unfolding g(3) by (rule waiting_inv_start_run [OF rinv winv hj guard])
  qed
qed

lemma cron_handler_cases:
  "snd (cron_handler key configs cb tryLock s) = s
   \<or> (\<exists>a job. jobs_get s key = Some (a, job)
          \<and> \<not> (truthy (get_prop configs ''waiting'') \<and> job_status job \<noteq> READY)
          \<and> cron_handler key configs cb tryLock s = start_run a key configs cb tryLock CancelIfStop s)"
  by (auto simp: cron_handler_def split: option.splits)

lemma waiting_inv_cron_handler:
  assumes rinv: "registry_inv d s" and winv: "waiting_inv d s"
    and cfg: "\<And>a j. jobs_get s key = Some (a, j) \<Longrightarrow> configs = job_configs d j"
  shows "waiting_inv d (snd (cron_handler key configs cb tryLock s))"
proof -
  from cron_handler_cases [of key configs cb tryLock s] show ?thesis
  proof
    assume "snd (cron_handler key configs cb tryLock s) = s"
    then show ?thesis using winv by simp
  next
    assume "\<exists>a job. jobs_get s key = Some (a, job)
          \<and> \<not> (truthy (get_prop configs ''waiting'') \<and> job_status job \<noteq> READY)
          \<and> cron_handler key configs cb tryLock s = start_run a key configs cb tryLock CancelIfStop s"
    then obtain a job where g: "jobs_get s key = Some (a, job)"
      "\<not> (truthy (get_prop configs ''waiting'') \<and> job_status job \<noteq> READY)"
      "cron_handler key configs cb tryLock s = start_run a key configs cb tryLock CancelIfStop s"
      by blast
    have hj: "heap s a = Some job" using g(1) by (simp add: jobs_get_Some)
    have "configs = job_configs d job" using cfg g(1) by simp
    then have guard: "\<not> (job_waiting d job \<and> job_status job \<noteq> READY)"
      using g(2) by (simp add: job_waiting_def)
    show ?thesis
      unfolding g(3) by (rule waiting_inv_start_run [OF rinv winv hj guard])
  qed
qed

lemma waiting_inv_release_trigger:
  assumes "waiting_inv d s"
  shows "waiting_inv d (release_trigger h s)"
  by (rule waiting_inv_frame [OF assms]) simp_all

lemma waiting_inv_call_handler:
  assumes rinv: "registry_inv d s" and winv: "waiting_inv d s"
    and cfg: "\<And>a j. jobs_get s (cl_key c) = Some (a, j) \<Longrightarrow> cl_configs c = job_configs d j"
  shows "waiting_inv d (snd (call_handler c s))"
proof -
  have 1: "\<And>cb tryLock. waiting_inv d (snd (cron_handler (cl_key c) (cl_configs c) cb tryLock s))"
    by (rule waiting_inv_cron_handler [OF rinv winv]) (rule cfg)
  have 2: "\<And>r cb tryLock. waiting_inv d (snd (guarded_handler r (cl_key c) (cl_configs c) cb tryLock s))"
    by (rule waiting_inv_guarded_handler [OF rinv winv]) (rule cfg)
  show ?thesis
    using 1 2
    by (simp add: call_handler_def interval_handler_def timeout_handler_def
        split: handler_kind.splits)
qed

lemma waiting_inv_fire:
  assumes rinv: "registry_inv d s" and winv: "waiting_inv d s"
  shows "waiting_inv d (snd (fire h s))"
proof (cases "triggers s h")
  case None
  then show ?thesis using winv by (simp add: fire_def)
next
  case (Some t)
  define s0 where "s0 = (if tr_kind t = Once then release_trigger h s else s)"
  have r0: "registry_inv d s0" using rinv by (simp add: s0_def registry_inv_release_spent)
  have w0: "waiting_inv d s0" using winv by (simp add: s0_def waiting_inv_release_trigger)
  have g: "\<And>k. jobs_get s0 k = jobs_get s k" by (simp add: s0_def)
  have cfg: "\<And>a j. jobs_get s0 (cl_key (tr_onFire t)) = Some (a, j) \<Longrightarrow>
      cl_configs (tr_onFire t) = job_configs d j"
    unfolding g using registry_inv_triggerD(3) [OF rinv Some] by (auto simp: jobs_get_Some)
  have "waiting_inv d (snd (call_handler (tr_onFire t) s0))"
    by (rule waiting_inv_call_handler [OF r0 w0]) (rule cfg)
  then show ?thesis using Some by (simp add: fire_def s0_def)
qed

lemma cancelJob_frame:
  "heap (snd (cancelJob key s)) = heap s"
  "running (snd (cancelJob key s)) = running s"
  "status_log (snd (cancelJob key s)) = status_log s"
  using cancelJob_shape [of key s] by auto

lemma waiting_inv_cancelJob:
  assumes "waiting_inv d s"
  shows "waiting_inv d (snd (cancelJob key s))"
  by (rule waiting_inv_frame [OF assms]) (rule cancelJob_frame)+

lemma waiting_inv_cancel_each:
  assumes "waiting_inv d s"
  shows "waiting_inv d (snd (cancel_each keys s))"
  using assms
proof (induction keys arbitrary: s)
  case Nil
  then show ?case by simp
next
  case (Cons key keys)
  have i: "waiting_inv d (snd (cancelJob key s))"
    using Cons.prems by (rule waiting_inv_cancelJob)
  obtain out s' where c: "cancelJob key s = (out, s')" by (cases "cancelJob key s")
  show ?case
    using i c Cons.IH [of s'] by (cases out) simp_all
qed

lemma waiting_inv_finish_run:
  assumes rinv: "registry_inv d s" and winv: "waiting_inv d s" and x: "running s e = Some x"
  shows "waiting_inv d (set_status (ex_job x) READY (s\<lparr>running := (running s)(e := None)\<rparr>))"
proof (rule waiting_invI)
  let ?a = "ex_job x"
  let ?s' = "set_status ?a READY (s\<lparr>running := (running s)(e := None)\<rparr>)"
  from registry_inv_runningD(2) [OF rinv x] obtain j where hj: "heap s ?a = Some j" by blast
  have run': "running ?s' = (running s)(e := None)" by simp
  have heap': "heap ?s' = (heap s)(?a \<mapsto> j\<lparr>job_status := READY\<rparr>)"
    and log': "status_log ?s' = status_log s @ [(?a, job_status j, READY)]"
    using hj by (simp_all add: set_status_def)
  have sub: "\<And>e' x'. running ?s' e' = Some x' \<Longrightarrow> running s e' = Some x'"
    unfolding run' by (auto split: if_splits)
  have fl: "in_flight s ?a" unfolding in_flight_def using x by blast
  {
    fix b jb assume hb: "heap ?s' b = Some jb" and wb: "job_waiting d jb"
    show "exclusive ?s' b \<and> (job_status jb = RUNNING \<longleftrightarrow> in_flight ?s' b)"
    proof (cases "b = ?a")
      case True
      then have jb: "jb = j\<lparr>job_status := READY\<rparr>" using hb heap' by simp
      then have wj: "job_waiting d j" using wb by simp
      have ex: "exclusive s ?a" by (rule waiting_invD1(1) [OF winv hj wj])
      have none: "\<And>e' x'. running ?s' e' = Some x' \<Longrightarrow> ex_job x' \<noteq> ?a"
      proof
        fix e' x' assume r: "running ?s' e' = Some x'" and a: "ex_job x' = ?a"
        from r have ne: "e' \<noteq> e" unfolding run' by (auto split: if_splits)
        from sub [OF r] x a ex have "e' = e" unfolding exclusive_def by blast
        with ne show False by simp
      qed
      have u: "exclusive ?s' ?a" unfolding exclusive_def using none by blast
      have nf: "\<not> in_flight ?s' ?a" unfolding in_flight_def using none by blast
      have st: "job_status jb = READY" using jb by simp
      show ?thesis unfolding True using u nf st by simp
    next
      case False
      then have hb': "heap s b = Some jb" using hb heap' by simp
      have bwd: "\<And>e' x'. ex_job x' = b \<Longrightarrow> running s e' = Some x' \<Longrightarrow> running ?s' e' = Some x'"
        using False x unfolding run' by auto
      have "exclusive s b" by (rule waiting_invD1(1) [OF winv hb' wb])
      then have u: "exclusive ?s' b"
        unfolding exclusive_def using sub by blast
      have "in_flight ?s' b \<longleftrightarrow> in_flight s b"
        unfolding in_flight_def using sub bwd by blast
      then show ?thesis
        using waiting_invD1(2) [OF winv hb' wb] u by blast
    qed
  }
  {
    fix b old new assume "(b, old, new) \<in> set (status_log ?s')"
    then consider "(b, old, new) \<in> set (status_log s)" | "b = ?a" "old = job_status j" "new = READY"
      unfolding log' by auto
    then show "\<exists>jb. heap ?s' b = Some jb \<and> (job_waiting d jb \<longrightarrow> alternates old new)"
    proof cases
      case 1
      from waiting_invD2 [OF winv 1] obtain j0 where j0: "heap s b = Some j0"
        "job_waiting d j0 \<longrightarrow> alternates old new"
        by blast
      show ?thesis
      proof (cases "b = ?a")
        case True
        then show ?thesis using j0 hj unfolding heap' by simp
      next
        case False
        then show ?thesis using j0 unfolding heap' by simp
      qed
    next
      case 2
      have "job_waiting d j \<Longrightarrow> job_status j = RUNNING"
        using waiting_invD1(2) [OF winv hj] fl by simp
      then show ?thesis using 2 unfolding heap' by (auto simp: alternates_def)
    qed
  }
qed

lemma waiting_inv_resume:
  assumes rinv: "registry_inv d s" and winv: "waiting_inv d s"
  shows "waiting_inv d (snd (resume e needStop s))"
proof (cases "running s e")
  case None
  then show ?thesis using winv by (simp add: resume_def)
next
  case (Some x)
  have i: "waiting_inv d (set_status (ex_job x) READY (s\<lparr>running := (running s)(e := None)\<rparr>))"
    by (rule waiting_inv_finish_run [OF rinv winv Some])
  show ?thesis
    using Some i waiting_inv_cancelJob [OF i]
    by (simp add: resume_def Let_def split: resumption.splits)
qed

lemma registry_inv_fresh_addr:
  assumes "registry_inv d s"
  shows "heap s (next_addr s) = None"
proof (cases "heap s (next_addr s)")
  case None
  then show ?thesis .
next
  case (Some j)
  then have "next_addr s < next_addr s"
    using assms unfolding registry_inv_def by blast
  then show ?thesis by simp
qed

lemma waiting_inv_register_add:
  assumes rinv: "registry_inv d s" and winv: "waiting_inv d s"
    and st: "job_status j = READY"
    and s': "heap s' = (heap s)(next_addr s \<mapsto> j)" "running s' = running s"
      "status_log s' = status_log s"
  shows "waiting_inv d s'"
proof (rule waiting_invI)
  have fresh: "heap s (next_addr s) = None" by (rule registry_inv_fresh_addr [OF rinv])
  have none: "\<And>e x. running s e = Some x \<Longrightarrow> ex_job x \<noteq> next_addr s"
    using registry_inv_runningD(2) [OF rinv] fresh by fastforce
  have fl: "\<And>b. in_flight s' b = in_flight s b" "\<And>b. exclusive s' b = exclusive s b"
    unfolding in_flight_def exclusive_def s' by simp_all
  {
    fix b jb assume hb: "heap s' b = Some jb" and wb: "job_waiting d jb"
    show "exclusive s' b \<and> (job_status jb = RUNNING \<longleftrightarrow> in_flight s' b)"
    proof (cases "b = next_addr s")
      case True
      then have jb: "jb = j" using hb s'(1) by simp
      have nf: "\<not> in_flight s (next_addr s)" unfolding in_flight_def using none by blast
      have u: "exclusive s (next_addr s)" unfolding exclusive_def using none by blast
      show ?thesis unfolding fl True using nf u st jb by simp
    next
      case False
      then have "heap s b = Some jb" using hb s'(1) by simp
      from waiting_invD1 [OF winv this wb] show ?thesis unfolding fl by simp
    qed
  }
  {
    fix b old new assume "(b, old, new) \<in> set (status_log s')"
    then have "(b, old, new) \<in> set (status_log s)" unfolding s' .
    from waiting_invD2 [OF winv this] obtain j0 where j0: "heap s b = Some j0"
      "job_waiting d j0 \<longrightarrow> alternates old new" by blast
    then have "b \<noteq> next_addr s" using fresh by auto
    then show "\<exists>jb. heap s' b = Some jb \<and> (job_waiting d jb \<longrightarrow> alternates old new)"
      using j0 unfolding s' by simp
  }
qed

lemma addJob_heap_log:
  "heap (addJob key ty config inst tm s) =
     (heap s)(next_addr s \<mapsto> \<lparr>job_key = key, job_type = ty, job_config = config,
        job_method = None, job_tryLock = None, job_timer = tm,
        job_instance = inst, job_status = READY\<rparr>)"
  "running (addJob key ty config inst tm s) = running s"
  "status_log (addJob key ty config inst tm s) = status_log s"
  by (simp_all add: addJob_def Let_def)

lemma register_trigger_heap_log [simp]:
  "heap (snd (register_trigger k r c s)) = heap s"
  "running (snd (register_trigger k r c s)) = running s"
  "status_log (snd (register_trigger k r c s)) = status_log s"
  by (simp_all add: register_trigger_def Let_def)

lemma waiting_inv_run_if_immediate:
  assumes "registry_inv d s" and "waiting_inv d s"
    and "\<And>a j. jobs_get s key = Some (a, j) \<Longrightarrow> configs = job_configs d j"
  shows "waiting_inv d (snd (run_if_immediate key configs cb tryLock s))"
  using assms(2) waiting_inv_guarded_handler [OF assms]
  by (simp add: run_if_immediate_def runJobImmediately_def)

lemma waiting_inv_schedule_shape:
  assumes rinv: "registry_inv d s" and winv: "waiting_inv d s"
    and absent: "map_of (jobs s) key = None"
    and c: "cl_key c = key"
      "cl_configs c = (case ty of
           interval \<Rightarrow> Object_assign Map.empty [config, config]
         | cron \<Rightarrow> Object_assign Map.empty [Some d, config]
         | timeout \<Rightarrow> Object_assign Map.empty [Some d, config])"
    and h: "(case ty of cron \<Rightarrow> inst | interval \<Rightarrow> tm | timeout \<Rightarrow> tm) = Some (next_handle s)"
    and k: "k = Once \<longleftrightarrow> cl_kind c = TimeoutHandler"
  shows "waiting_inv d (snd (run_if_immediate key (cl_configs c) cb tryLock
           (addJob key ty config inst tm (snd (register_trigger k r c s)))))"
proof (rule waiting_inv_run_if_immediate)
  let ?s2 = "addJob key ty config inst tm (snd (register_trigger k r c s))"
  show "registry_inv d ?s2"
    by (rule registry_inv_register_addJob(1) [OF rinv absent c h k refl])
  show "waiting_inv d ?s2"
    by (rule waiting_inv_register_add [OF rinv winv, where j = "\<lparr>job_key = key, job_type = ty,
        job_config = config, job_method = None, job_tryLock = None, job_timer = tm,
        job_instance = inst, job_status = READY\<rparr>"]) (simp_all add: addJob_heap_log)
  show "\<And>a j. jobs_get ?s2 key = Some (a, j) \<Longrightarrow> cl_configs c = job_configs d j"
    by (rule registry_inv_register_addJob(2) [OF rinv absent c h k refl])
qed

lemma waiting_inv_scheduleCronJob:
  assumes "registry_inv d s" and "waiting_inv d s"
  shows "waiting_inv d (snd (scheduleCronJob d key cronv cb config tryLock s))"
proof (cases "map_of (jobs s) key")
  case None
  show ?thesis
    unfolding scheduleCronJob_fresh [OF None]
    using waiting_inv_schedule_shape [OF assms None, where ty = cron and k = Recurring
        and c = "\<lparr>cl_kind = CronHandler, cl_key = key,
            cl_configs = Object_assign Map.empty [Some d, config],
            cl_cb = cb, cl_tryLock = tryLock\<rparr>" and config = config
        and inst = "Some (next_handle s)"]
    by simp
next
  case (Some a)
  then show ?thesis using assms by (simp add: schedule_present)
qed

lemma waiting_inv_scheduleIntervalJob:
  assumes "registry_inv d s" and "waiting_inv d s"
  shows "waiting_inv d (snd (scheduleIntervalJob d key ival cb config tryLock s))"
proof (cases "map_of (jobs s) key")
  case None
  show ?thesis
    unfolding scheduleIntervalJob_fresh [OF None]
    using waiting_inv_schedule_shape [OF assms None, where ty = interval and k = Repeating
        and c = "\<lparr>cl_kind = IntervalHandler, cl_key = key,
            cl_configs = Object_assign Map.empty [config, config],
            cl_cb = cb, cl_tryLock = tryLock\<rparr>" and config = config
        and tm = "Some (next_handle s)"]
    by simp
next
  case (Some a)
  then show ?thesis using assms by (simp add: schedule_present)
qed

lemma waiting_inv_scheduleTimeoutJob:
  assumes "registry_inv d s" and "waiting_inv d s"
  shows "waiting_inv d (snd (scheduleTimeoutJob d key tmo cb config tryLock s))"
proof (cases "map_of (jobs s) key")
  case None
  show ?thesis
    unfolding scheduleTimeoutJob_fresh [OF None]
    using waiting_inv_schedule_shape [OF assms None, where ty = timeout and k = Once
        and c = "\<lparr>cl_kind = TimeoutHandler, cl_key = key,
            cl_configs = Object_assign Map.empty [Some d, config],
            cl_cb = cb, cl_tryLock = tryLock\<rparr>" and config = config
        and tm = "Some (next_handle s)"]
    by simp
next
  case (Some a)
  then show ?thesis using assms by (simp add: schedule_present)
qed

lemma waiting_inv_scheduleRecurrenceJob:
  assumes "registry_inv d s" and "waiting_inv d s"
  shows "waiting_inv d (snd (scheduleRecurrenceJob d key rule cb config tryLock s))"
proof (cases "map_of (jobs s) key")
  case None
  show ?thesis
    unfolding scheduleRecurrenceJob_fresh [OF None]
    using waiting_inv_schedule_shape [OF assms None, where ty = cron and k = Recurring
        and c = "\<lparr>cl_kind = RecurrenceHandler, cl_key = key,
            cl_configs = Object_assign Map.empty [Some d, config],
            cl_cb = cb, cl_tryLock = tryLock\<rparr>" and config = config
        and inst = "Some (next_handle s)"]
    by simp
next
  case (Some a)
  then show ?thesis using assms by (simp add: schedule_present)
qed

lemma waiting_inv_queueJob:
  assumes "registry_inv d s" and "waiting_inv d s"
  shows "waiting_inv d (snd (queueJob d job s))"
  using assms(2) waiting_inv_scheduleCronJob [OF assms] waiting_inv_scheduleIntervalJob [OF assms]
    waiting_inv_scheduleTimeoutJob [OF assms]
  by (simp add: queueJob_def Let_def split: job_kind.splits option.splits)

lemma waiting_inv_apply_event:
  assumes "registry_inv d s" and "waiting_inv d s"
  shows "waiting_inv d (snd (apply_event d ev s))"
  using assms
  by (cases ev)
    (simp_all add: waiting_inv_scheduleCronJob waiting_inv_scheduleIntervalJob
      waiting_inv_scheduleTimeoutJob waiting_inv_scheduleRecurrenceJob waiting_inv_queueJob
      waiting_inv_cancelJob waiting_inv_cancel_each cancelJobs_def waiting_inv_fire
      waiting_inv_resume)

lemma waiting_inv_init: "waiting_inv d init"
  by (simp add: waiting_inv_def init_def)

lemma waiting_inv_run_from:
  assumes "registry_inv d s" and "waiting_inv d s"
  shows "waiting_inv d (run d evs s)"
  using assms
  by (induction evs arbitrary: s) (simp_all add: registry_inv_apply_event waiting_inv_apply_event)

lemma waiting_inv_run: "waiting_inv d (run d evs init)"
  by (rule waiting_inv_run_from [OF registry_inv_init waiting_inv_init])

subsection \<open>Handles and runs keep their identity\<close>

lemma kept_refl [simp]: "kept m m k"
  by (simp add: kept_def)

lemma kept_trans: "kept m m' k \<Longrightarrow> kept m' m'' k \<Longrightarrow> kept m m'' k"
  by (auto simp: kept_def)

lemma kept_remove [simp]: "kept m (m(k' := None)) k"
  by (simp add: kept_def)

lemma kept_add: "k \<noteq> k' \<Longrightarrow> kept m (m(k' \<mapsto> v)) k"
  by (simp add: kept_def)

lemma schedule_held:
  assumes "h < next_handle s"
  shows "kept (triggers s) (triggers (snd (scheduleCronJob d key cronv cb config tryLock s))) h
       \<and> h < next_handle (snd (scheduleCronJob d key cronv cb config tryLock s))"
    and "kept (triggers s) (triggers (snd (scheduleIntervalJob d key ival cb config tryLock s))) h
       \<and> h < next_handle (snd (scheduleIntervalJob d key ival cb config tryLock s))"
    and "kept (triggers s) (triggers (snd (scheduleTimeoutJob d key tmo cb config tryLock s))) h
       \<and> h < next_handle (snd (scheduleTimeoutJob d key tmo cb config tryLock s))"
    and "kept (triggers s) (triggers (snd (scheduleRecurrenceJob d key rule cb config tryLock s))) h
       \<and> h < next_handle (snd (scheduleRecurrenceJob d key rule cb config tryLock s))"
  using assms
  by (cases "map_of (jobs s) key";
      simp add: scheduleCronJob_fresh scheduleIntervalJob_fresh scheduleTimeoutJob_fresh
        scheduleRecurrenceJob_fresh schedule_present kept_add)+

lemma cancelJob_held:
  assumes "h < next_handle s"
  shows "kept (triggers s) (triggers (snd (cancelJob key s))) h
       \<and> h < next_handle (snd (cancelJob key s))"
  using assms cancelJob_shape [of key s] by (auto simp: kept_def split: if_splits)

lemma cancel_each_held:
  assumes "h < next_handle s"
  shows "kept (triggers s) (triggers (snd (cancel_each keys s))) h
       \<and> h < next_handle (snd (cancel_each keys s))"
  using assms
proof (induction keys arbitrary: s)
  case Nil
  then show ?case by simp
next
  case (Cons key keys)
  obtain out s' where c: "cancelJob key s = (out, s')" by (cases "cancelJob key s")
  have 1: "kept (triggers s) (triggers s') h \<and> h < next_handle s'"
    using cancelJob_held [OF Cons.prems, of key] c by simp
  show ?case
  proof (cases out)
    case Returned
    then show ?thesis using c 1 Cons.IH [of s'] by (auto intro: kept_trans)
  qed (use c 1 in simp_all)
qed

lemma resume_held:
  assumes "h < next_handle s"
  shows "kept (triggers s) (triggers (snd (resume e needStop s))) h
       \<and> h < next_handle (snd (resume e needStop s))"
proof -
  have "\<And>x. kept (triggers s) (triggers (snd (cancelJob (ex_key x)
          (set_status (ex_job x) READY (s\<lparr>running := (running s)(e := None)\<rparr>))))) h
     \<and> h < next_handle (snd (cancelJob (ex_key x)
          (set_status (ex_job x) READY (s\<lparr>running := (running s)(e := None)\<rparr>))))"
  proof -
    fix x
    let ?s1 = "set_status (ex_job x) READY (s\<lparr>running := (running s)(e := None)\<rparr>)"
    have "h < next_handle ?s1" using assms by simp
    from cancelJob_held [OF this, of "ex_key x"]
    show "kept (triggers s) (triggers (snd (cancelJob (ex_key x) ?s1))) h
     \<and> h < next_handle (snd (cancelJob (ex_key x) ?s1))" by simp
  qed
  then show ?thesis
    using assms by (auto simp: resume_def Let_def split: option.splits resumption.splits)
qed

lemma held_apply_event:
  assumes "h < next_handle s"
  shows "kept (triggers s) (triggers (snd (apply_event d ev s))) h
       \<and> h < next_handle (snd (apply_event d ev s))"
proof (cases ev)
  case (CallQueueJob job)
  show ?thesis
    using queueJob_shape [of d job s] assms schedule_held [OF assms]
    unfolding CallQueueJob apply_event.simps by (metis kept_refl)
next
  case (Fire h')
  then show ?thesis using assms by (simp add: fire_fields split: option.splits)
qed (use assms in \<open>simp_all add: schedule_held cancelJob_held cancel_each_held cancelJobs_def
      resume_held\<close>)

lemma held_run:
  assumes "h < next_handle s"
  shows "kept (triggers s) (triggers (run d evs s)) h \<and> h < next_handle (run d evs s)"
  using assms
proof (induction evs arbitrary: s)
  case Nil
  then show ?case by simp
next
  case (Cons ev evs)
  from held_apply_event [OF Cons.prems, of d ev]
  have 1: "kept (triggers s) (triggers (snd (apply_event d ev s))) h"
    and 2: "h < next_handle (snd (apply_event d ev s))" by simp_all
  from Cons.IH [OF 2] 1 show ?case by (auto intro: kept_trans)
qed

lemma spent_never_delivered:
  assumes "triggers s h = None" and "h < next_handle s"
  shows "deliveries d h evs s = 0"
  using assms
proof (induction evs arbitrary: s)
  case Nil
  then show ?case by simp
next
  case (Cons ev evs)
  from held_apply_event [OF Cons.prems(2), of d ev] Cons.prems(1)
  have "triggers (snd (apply_event d ev s)) h = None"
    and "h < next_handle (snd (apply_event d ev s))" by (simp_all add: kept_def)
  then have "deliveries d h evs (snd (apply_event d ev s)) = 0"
    by (rule Cons.IH)
  then show ?case using Cons.prems by simp
qed

lemma once_delivered_at_most_once:
  assumes "h < next_handle s"
    and "case triggers s h of None \<Rightarrow> True | Some t \<Rightarrow> tr_kind t = Once"
  shows "deliveries d h evs s \<le> 1"
  using assms
proof (induction evs arbitrary: s)
  case Nil
  then show ?case by simp
next
  case (Cons ev evs)
  from held_apply_event [OF Cons.prems(1), of d ev]
  have k: "kept (triggers s) (triggers (snd (apply_event d ev s))) h"
    and lt: "h < next_handle (snd (apply_event d ev s))" by simp_all
  show ?case
  proof (cases "ev = Fire h \<and> triggers s h \<noteq> None")
    case True
    then obtain t where t: "triggers s h = Some t" and ev: "ev = Fire h" by auto
    then have "tr_kind t = Once" using Cons.prems(2) by simp
    then have "triggers (snd (fire h s)) h = None"
      using t by (simp add: fire_fields)
    then have "deliveries d h evs (snd (apply_event d ev s)) = 0"
      using lt unfolding ev apply_event.simps by (rule spent_never_delivered)
    then show ?thesis using True by simp
  next
    case False
    have "case triggers (snd (apply_event d ev s)) h of None \<Rightarrow> True | Some t \<Rightarrow> tr_kind t = Once"
      using k Cons.prems(2) by (auto simp: kept_def split: option.splits)
    from Cons.IH [OF lt this] False show ?thesis by auto
  qed
qed

lemma next_exec_fields [simp]:
  "next_exec (addJob key ty config inst tm s) = next_exec s"
  "next_exec (snd (register_trigger k r c s)) = next_exec s"
  by (simp_all add: addJob_def register_trigger_def Let_def)

lemma cancelJob_next_exec: "next_exec (snd (cancelJob key s)) = next_exec s"
  using cancelJob_shape [of key s] by auto

lemma guarded_handler_inflight:
  assumes "e < next_exec s"
  shows "kept (running s) (running (snd (guarded_handler r key configs cb tryLock s))) e
       \<and> e < next_exec (snd (guarded_handler r key configs cb tryLock s))"
  using assms guarded_handler_cases [of r key configs cb tryLock s]
  by (auto simp: kept_def)

lemma cron_handler_inflight:
  assumes "e < next_exec s"
  shows "kept (running s) (running (snd (cron_handler key configs cb tryLock s))) e
       \<and> e < next_exec (snd (cron_handler key configs cb tryLock s))"
  using assms cron_handler_cases [of key configs cb tryLock s]
  by (auto simp: kept_def)

lemma call_handler_inflight:
  assumes "e < next_exec s"
  shows "kept (running s) (running (snd (call_handler c s))) e
       \<and> e < next_exec (snd (call_handler c s))"
  using guarded_handler_inflight [OF assms] cron_handler_inflight [OF assms]
  by (simp add: call_handler_def interval_handler_def timeout_handler_def
      split: handler_kind.splits)

lemma fire_inflight:
  assumes "e < next_exec s"
  shows "kept (running s) (running (snd (fire h s))) e \<and> e < next_exec (snd (fire h s))"
proof (cases "triggers s h")
  case None
  then show ?thesis using assms by (simp add: fire_def)
next
  case (Some t)
  have "e < next_exec (release_trigger h s)" using assms by simp
  from call_handler_inflight [OF this, of "tr_onFire t"] call_handler_inflight [OF assms, of "tr_onFire t"]
  show ?thesis using Some by (simp add: fire_def)
qed

lemma run_if_immediate_inflight:
  assumes "e < next_exec s"
  shows "kept (running s) (running (snd (run_if_immediate key configs cb tryLock s))) e
       \<and> e < next_exec (snd (run_if_immediate key configs cb tryLock s))"
  using assms guarded_handler_inflight [OF assms]
  by (simp add: run_if_immediate_def runJobImmediately_def)

lemma schedule_shape_inflight:
  assumes "e < next_exec s"
  shows "kept (running s) (running (snd (run_if_immediate key configs cb tryLock
             (addJob key ty config inst tm (snd (register_trigger k r c s)))))) e
       \<and> e < next_exec (snd (run_if_immediate key configs cb tryLock
             (addJob key ty config inst tm (snd (register_trigger k r c s)))))"
  using run_if_immediate_inflight [of e "addJob key ty config inst tm (snd (register_trigger k r c s))"]
    assms
  by (simp add: addJob_heap_log)

lemma schedule_inflight:
  assumes "e < next_exec s"
  shows "kept (running s) (running (snd (scheduleCronJob d key cronv cb config tryLock s))) e
       \<and> e < next_exec (snd (scheduleCronJob d key cronv cb config tryLock s))"
    and "kept (running s) (running (snd (scheduleIntervalJob d key ival cb config tryLock s))) e
       \<and> e < next_exec (snd (scheduleIntervalJob d key ival cb config tryLock s))"
    and "kept (running s) (running (snd (scheduleTimeoutJob d key tmo cb config tryLock s))) e
       \<and> e < next_exec (snd (scheduleTimeoutJob d key tmo cb config tryLock s))"
    and "kept (running s) (running (snd (scheduleRecurrenceJob d key rule cb config tryLock s))) e
       \<and> e < next_exec (snd (scheduleRecurrenceJob d key rule cb config tryLock s))"
  using assms
  by (cases "map_of (jobs s) key";
      simp add: scheduleCronJob_fresh scheduleIntervalJob_fresh scheduleTimeoutJob_fresh
        scheduleRecurrenceJob_fresh schedule_present schedule_shape_inflight)+

lemma cancelJob_inflight:
  assumes "e < next_exec s"
  shows "kept (running s) (running (snd (cancelJob key s))) e
       \<and> e < next_exec (snd (cancelJob key s))"
  using assms by (simp add: cancelJob_frame cancelJob_next_exec)

lemma cancel_each_inflight:
  assumes "e < next_exec s"
  shows "kept (running s) (running (snd (cancel_each keys s))) e
       \<and> e < next_exec (snd (cancel_each keys s))"
  using assms
proof (induction keys arbitrary: s)
  case Nil
  then show ?case by simp
next
  case (Cons key keys)
  obtain out s' where c: "cancelJob key s = (out, s')" by (cases "cancelJob key s")
  have 1: "kept (running s) (running s') e \<and> e < next_exec s'"
    using cancelJob_inflight [OF Cons.prems, of key] c by simp
  show ?case
  proof (cases out)
    case Returned
    then show ?thesis using c 1 Cons.IH [of s'] by (auto intro: kept_trans)
  qed (use c 1 in simp_all)
qed

lemma resume_inflight:
  assumes "e < next_exec s"
  shows "kept (running s) (running (snd (resume e' needStop s))) e
       \<and> e < next_exec (snd (resume e' needStop s))"
  using assms
  by (auto simp: resume_def Let_def cancelJob_frame cancelJob_next_exec
      split: option.splits resumption.splits)

lemma inflight_apply_event:
  assumes "e < next_exec s"
  shows "kept (running s) (running (snd (apply_event d ev s))) e
       \<and> e < next_exec (snd (apply_event d ev s))"
proof (cases ev)
  case (CallQueueJob job)
  show ?thesis
    using queueJob_shape [of d job s] assms schedule_inflight [OF assms]
    unfolding CallQueueJob apply_event.simps by (metis kept_refl)
qed (use assms in \<open>simp_all add: schedule_inflight cancelJob_inflight cancel_each_inflight
      cancelJobs_def resume_inflight fire_inflight\<close>)

lemma inflight_run:
  assumes "e < next_exec s"
  shows "kept (running s) (running (run d evs s)) e \<and> e < next_exec (run d evs s)"
  using assms
proof (induction evs arbitrary: s)
  case Nil
  then show ?case by simp
next
  case (Cons ev evs)
  from inflight_apply_event [OF Cons.prems, of d ev]
  have 1: "kept (running s) (running (snd (apply_event d ev s))) e"
    and 2: "e < next_exec (snd (apply_event d ev s))" by simp_all
  from Cons.IH [OF 2] 1 show ?case by (auto intro: kept_trans)
qed

subsection \<open>The key of the run a firing starts\<close>

lemma call_handler_key:
  assumes "fst (call_handler c s) = Awaiting e" and "running (snd (call_handler c s)) e = Some x"
  shows "ex_key x = cl_key c"
proof -
  have g: "\<And>r. fst (guarded_handler r (cl_key c) (cl_configs c) (cl_cb c) (cl_tryLock c) s) = Awaiting e
      \<Longrightarrow> running (snd (guarded_handler r (cl_key c) (cl_configs c) (cl_cb c) (cl_tryLock c) s)) e = Some x
      \<Longrightarrow> ex_key x = cl_key c"
    by (auto simp: guarded_handler_def split: option.splits if_splits)
  have c: "fst (cron_handler (cl_key c) (cl_configs c) (cl_cb c) (cl_tryLock c) s) = Awaiting e
      \<Longrightarrow> running (snd (cron_handler (cl_key c) (cl_configs c) (cl_cb c) (cl_tryLock c) s)) e = Some x
      \<Longrightarrow> ex_key x = cl_key c"
    by (auto simp: cron_handler_def split: option.splits if_splits)
  show ?thesis
    using assms g c
    by (simp add: call_handler_def interval_handler_def timeout_handler_def
        split: handler_kind.splits)
qed

lemma fire_key:
  assumes "fst (fire h s) = Awaiting e" and "running (snd (fire h s)) e = Some x"
  shows "\<exists>t. triggers s h = Some t \<and> ex_key x = cl_key (tr_onFire t)"
proof (cases "triggers s h")
  case None
  then show ?thesis using assms by (simp add: fire_def)
next
  case (Some t)
  then show ?thesis
    using assms call_handler_key [of "tr_onFire t" _ e x]
    by (simp add: fire_def split: if_splits)
qed

subsection \<open>The example histories, evaluated\<close>

lemmas model_defs =
  scheduleCronJob_def scheduleIntervalJob_def scheduleTimeoutJob_def scheduleRecurrenceJob_def
  queueJob_def assertJobNotExist_def init_def register_trigger_def release_trigger_def
  addJob_def run_if_immediate_def runJobImmediately_def guarded_handler_def cron_handler_def
  interval_handler_def timeout_handler_def call_handler_def fire_def resume_def cancelJob_def
  start_run_def set_status_def jobs_get_def get_prop_def defaults_def Let_def

lemma interval_state:
  "run defaults interval_history init =
     \<lparr>jobs = [(''k'', 0)],
      heap = [0 \<mapsto> \<lparr>job_key = ''k'', job_type = interval, job_config = None,
                job_method = None, job_tryLock = None, job_timer = Some 0,
                job_instance = None, job_status = READY\<rparr>],
      next_addr = 1,
      triggers = [0 \<mapsto> \<lparr>tr_kind = Repeating, tr_rule = JNum 1000,
                tr_onFire = \<lparr>cl_kind = IntervalHandler, cl_key = ''k'',
                  cl_configs = Map.empty, cl_cb = Some 0, cl_tryLock = None\<rparr>\<rparr>],
      next_handle = 1, running = Map.empty, next_exec = 0, status_log = []\<rparr>"
  by (simp add: interval_history_def model_defs)

lemma timeout_state:
  "run defaults timeout_history init =
     \<lparr>jobs = [(''t'', 0)],
      heap = [0 \<mapsto> \<lparr>job_key = ''t'', job_type = timeout, job_config = None,
                job_method = None, job_tryLock = None, job_timer = Some 0,
                job_instance = None, job_status = READY\<rparr>],
      next_addr = 1,
      triggers = [0 \<mapsto> \<lparr>tr_kind = Once, tr_rule = JNum 50,
                tr_onFire = \<lparr>cl_kind = TimeoutHandler, cl_key = ''t'',
                  cl_configs = defaults, cl_cb = Some 0, cl_tryLock = None\<rparr>\<rparr>],
      next_handle = 1, running = Map.empty, next_exec = 0, status_log = []\<rparr>"
  by (simp add: timeout_history_def model_defs)

lemma timeout_fired_state:
  "run defaults (timeout_history @ [Fire 0]) init =
     \<lparr>jobs = [(''t'', 0)],
      heap = [0 \<mapsto> \<lparr>job_key = ''t'', job_type = timeout, job_config = None,
                job_method = None, job_tryLock = None, job_timer = Some 0,
                job_instance = None, job_status = RUNNING\<rparr>],
      next_addr = 1,
      triggers = Map.empty,
      next_handle = 1,
      running = [0 \<mapsto> \<lparr>ex_configs = defaults, ex_key = ''t'', ex_cb = Some 0,
                  ex_tryLock = None, ex_job = 0, ex_resume = CancelAlways\<rparr>],
      next_exec = 1, status_log = [(0, READY, RUNNING)]\<rparr>"
  by (simp add: timeout_history_def model_defs)

lemma cron_fired_state:
  "run defaults (cron_history @ [Fire 0]) init =
     \<lparr>jobs = [(''c'', 0)],
      heap = [0 \<mapsto> \<lparr>job_key = ''c'', job_type = cron, job_config = None,
                job_method = None, job_tryLock = None, job_timer = None,
                job_instance = Some 0, job_status = RUNNING\<rparr>],
      next_addr = 1,
      triggers = [0 \<mapsto> \<lparr>tr_kind = Recurring,
                tr_rule = JObj [''start'' \<mapsto> JNull, ''end'' \<mapsto> JNull, ''rule'' \<mapsto> JStr ''* * * * *''],
                tr_onFire = \<lparr>cl_kind = CronHandler, cl_key = ''c'',
                  cl_configs = defaults, cl_cb = Some 0, cl_tryLock = None\<rparr>\<rparr>],
      next_handle = 1,
      running = [0 \<mapsto> \<lparr>ex_configs = defaults, ex_key = ''c'', ex_cb = Some 0,
                  ex_tryLock = None, ex_job = 0, ex_resume = CancelIfStop\<rparr>],
      next_exec = 1, status_log = [(0, READY, RUNNING)]\<rparr>"
  by (simp add: cron_history_def model_defs)

lemma waiting_state:
  "run defaults waiting_history init =
     \<lparr>jobs = [(''w'', 0)],
      heap = [0 \<mapsto> \<lparr>job_key = ''w'', job_type = interval,
                job_config = Some [''waiting'' \<mapsto> JBool True],
                job_method = None, job_tryLock = None, job_timer = Some 0,
                job_instance = None, job_status = RUNNING\<rparr>],
      next_addr = 1,
      triggers = [0 \<mapsto> \<lparr>tr_kind = Repeating, tr_rule = JNum 1000,
                tr_onFire = \<lparr>cl_kind = IntervalHandler, cl_key = ''w'',
                  cl_configs = [''waiting'' \<mapsto> JBool True], cl_cb = Some 0, cl_tryLock = None\<rparr>\<rparr>],
      next_handle = 1,
      running = [0 \<mapsto> \<lparr>ex_configs = [''waiting'' \<mapsto> JBool True], ex_key = ''w'', ex_cb = Some 0,
                  ex_tryLock = None, ex_job = 0, ex_resume = CancelIfStop\<rparr>],
      next_exec = 1, status_log = [(0, READY, RUNNING)]\<rparr>"
  by (simp add: waiting_history_def model_defs)

lemma waiting_resolved_state:
  "run defaults (waiting_history @ [Fire 0, Resolve 0 False]) init =
     \<lparr>jobs = [(''w'', 0)],
      heap = [0 \<mapsto> \<lparr>job_key = ''w'', job_type = interval,
                job_config = Some [''waiting'' \<mapsto> JBool True],
                job_method = None, job_tryLock = None, job_timer = Some 0,
                job_instance = None, job_status = READY\<rparr>],
      next_addr = 1,
      triggers = [0 \<mapsto> \<lparr>tr_kind = Repeating, tr_rule = JNum 1000,
                tr_onFire = \<lparr>cl_kind = IntervalHandler, cl_key = ''w'',
                  cl_configs = [''waiting'' \<mapsto> JBool True], cl_cb = Some 0, cl_tryLock = None\<rparr>\<rparr>],
      next_handle = 1,
      running = Map.empty,
      next_exec = 1, status_log = [(0, READY, RUNNING), (0, RUNNING, READY)]\<rparr>"
  by (simp add: waiting_history_def model_defs)

lemma timeout_fire:
  "fire 0 (run defaults timeout_history init) =
     (Awaiting 0, run defaults (timeout_history @ [Fire 0]) init)"
  by (simp add: timeout_history_def model_defs)

lemma stuck_timeout_state:
  "run defaults stuck_timeout_history init =
     \<lparr>jobs = [(''t'', 0)],
      heap = [0 \<mapsto> \<lparr>job_key = ''t'', job_type = timeout,
                job_config = Some [''waiting'' \<mapsto> JBool True, ''immediate'' \<mapsto> JBool True],
                job_method = None, job_tryLock = None, job_timer = Some 0,
                job_instance = None, job_status = RUNNING\<rparr>],
      next_addr = 1,
      triggers = [0 \<mapsto> \<lparr>tr_kind = Once, tr_rule = JNum 50,
                tr_onFire = \<lparr>cl_kind = TimeoutHandler, cl_key = ''t'',
                  cl_configs = defaults ++ [''waiting'' \<mapsto> JBool True, ''immediate'' \<mapsto> JBool True],
                  cl_cb = Some 0, cl_tryLock = None\<rparr>\<rparr>],
      next_handle = 1,
      running = [0 \<mapsto> \<lparr>ex_configs = defaults ++ [''waiting'' \<mapsto> JBool True, ''immediate'' \<mapsto> JBool True],
                  ex_key = ''t'', ex_cb = Some 0, ex_tryLock = None, ex_job = 0,
                  ex_resume = CancelIfStop\<rparr>],
      next_exec = 1, status_log = [(0, READY, RUNNING)]\<rparr>"
  by (simp add: stuck_timeout_history_def model_defs)

section \<open>Duplicate keys\<close>

text \<open>
  Claim C1. Each of the four schedule operations, called with a key that is in the
  registry, throws the duplicate-key exception (\<^verbatim>\<open>JobRepeatException\<close> in the
  source) before it does anything else: the state it leaves is the state it found,
  the registry entry of the first registration included.
\<close>

theorem schedule_duplicate_key_throws:
  assumes "map_of (jobs s) key \<noteq> None"
  shows "scheduleCronJob d key cronv cb config tryLock s =
           (Threw (JobRepeatException (''The job '' @ key @ '' is exists.'')), s)
       \<and> scheduleIntervalJob d key ival cb config tryLock s =
           (Threw (JobRepeatException (''The job '' @ key @ '' is exists.'')), s)
       \<and> scheduleTimeoutJob d key tmo cb config tryLock s =
           (Threw (JobRepeatException (''The job '' @ key @ '' is exists.'')), s)
       \<and> scheduleRecurrenceJob d key rule cb config tryLock s =
           (Threw (JobRepeatException (''The job '' @ key @ '' is exists.'')), s)"
  using assms
  by (simp add: scheduleCronJob_def scheduleIntervalJob_def scheduleTimeoutJob_def
      scheduleRecurrenceJob_def assertJobNotExist_def)

theorem schedule_duplicate_key_throws_witness:
  "map_of (jobs (run defaults interval_history init)) ''k'' \<noteq> None
   \<and> scheduleCronJob defaults ''k'' (JStr ''* * * * *'') (Some 1) None None
         (run defaults interval_history init) =
       (Threw (JobRepeatException ''The job k is exists.''), run defaults interval_history init)
   \<and> scheduleIntervalJob defaults ''k'' (JNum 5) (Some 1) None None
         (run defaults interval_history init) =
       (Threw (JobRepeatException ''The job k is exists.''), run defaults interval_history init)
   \<and> scheduleTimeoutJob defaults ''k'' (JNum 5) (Some 1) None None
         (run defaults interval_history init) =
       (Threw (JobRepeatException ''The job k is exists.''), run defaults interval_history init)
   \<and> scheduleRecurrenceJob defaults ''k'' Map.empty (Some 1) None None
         (run defaults interval_history init) =
       (Threw (JobRepeatException ''The job k is exists.''), run defaults interval_history init)"
  using schedule_duplicate_key_throws [of "run defaults interval_history init" "''k''" defaults
      "JStr ''* * * * *''" "Some 1" None None "JNum 5" "JNum 5" Map.empty]
  by (simp add: interval_state)

section \<open>Resolving the configuration\<close>

text \<open>
  Claim C2, at the input where the code departs from it. \<^verbatim>\<open>scheduleIntervalJob\<close>
  merges \<^verbatim>\<open>config\<close> with itself and never reads the defaults. Registered with no
  config its handler's configs are the empty object; registered with a config that
  supplies only \<^verbatim>\<open>immediate\<close>, its \<^verbatim>\<open>maxRetry\<close>, \<^verbatim>\<open>retryInterval\<close> and \<^verbatim>\<open>waiting\<close>
  are \<^verbatim>\<open>undefined\<close>, not the defaults -1, 5000 and false; the Executor of its firing
  is built from the empty object. \<^verbatim>\<open>scheduleTimeoutJob\<close> on the same input gives its
  handler the defaults.
\<close>

theorem interval_job_configs_lack_defaults:
  "map_option (\<lambda>t. cl_configs (tr_onFire t))
      (triggers (snd (scheduleIntervalJob defaults ''k'' (JNum 1000) (Some 0) None None init)) 0) =
     Some Map.empty
   \<and> map_option (\<lambda>t. (get_prop (cl_configs (tr_onFire t)) ''maxRetry'',
                        get_prop (cl_configs (tr_onFire t)) ''retryInterval'',
                        get_prop (cl_configs (tr_onFire t)) ''waiting''))
      (triggers (snd (scheduleIntervalJob defaults ''k'' (JNum 1000) (Some 0)
         (Some [''immediate'' \<mapsto> JBool False]) None init)) 0) =
     Some (JUndefined, JUndefined, JUndefined)
   \<and> (get_prop defaults ''maxRetry'', get_prop defaults ''retryInterval'',
        get_prop defaults ''waiting'') = (JNum (- 1), JNum 5000, JBool False)
   \<and> map_option ex_configs
      (running (snd (fire 0 (snd (scheduleIntervalJob defaults ''k'' (JNum 1000) (Some 0)
         None None init)))) 0) = Some Map.empty
   \<and> map_option (\<lambda>t. cl_configs (tr_onFire t))
      (triggers (snd (scheduleTimeoutJob defaults ''k'' (JNum 1000) (Some 0) None None init)) 0) =
     Some defaults"
  by (simp add: model_defs)

section \<open>The status field\<close>

text \<open>
  Claim C3 fails as stated. A cron job registered with the defaults (waiting false)
  is fired twice before its first run resolves: the second firing assigns
  \<^verbatim>\<open>RUNNING\<close> to the job that is \<^verbatim>\<open>RUNNING\<close>, and the second run to resolve assigns
  \<^verbatim>\<open>READY\<close> to the job that is \<^verbatim>\<open>READY\<close>. Each log entry is (job object, status
  before, status written).
\<close>

theorem status_running_assigned_twice_counterexample:
  "get_prop defaults ''waiting'' = JBool False
   \<and> status_log (run defaults (cron_history @ [Fire 0, Fire 0, Resolve 0 False, Resolve 1 False]) init) =
       [(0, READY, RUNNING), (0, RUNNING, RUNNING), (0, RUNNING, READY), (0, READY, READY)]"
  by (simp add: cron_history_def model_defs)

text \<open>
  Claim C3, amended to the jobs that run under the waiting policy (the flag of the
  configs their schedule operation resolved is truthy). After every history, every
  assignment ever made to the status of such a job changed \<^verbatim>\<open>READY\<close> to
  \<^verbatim>\<open>RUNNING\<close> or \<^verbatim>\<open>RUNNING\<close> to \<^verbatim>\<open>READY\<close>, the job has at most one run in flight,
  and its status is \<^verbatim>\<open>RUNNING\<close> exactly while it has one.
\<close>

theorem waiting_job_status_alternates:
  assumes "s = run d evs init" and "heap s a = Some j" and "job_waiting d j"
  shows "(\<forall>old new. (a, old, new) \<in> set (status_log s) \<longrightarrow>
            old = READY \<and> new = RUNNING \<or> old = RUNNING \<and> new = READY)
       \<and> exclusive s a
       \<and> (job_status j = RUNNING \<longleftrightarrow> in_flight s a)"
proof (intro conjI allI impI)
  have w: "waiting_inv d s" unfolding assms(1) by (rule waiting_inv_run)
  show "exclusive s a" by (rule waiting_invD1(1) [OF w assms(2,3)])
  show "job_status j = RUNNING \<longleftrightarrow> in_flight s a" by (rule waiting_invD1(2) [OF w assms(2,3)])
  fix old new assume "(a, old, new) \<in> set (status_log s)"
  from waiting_invD2 [OF w this] assms(2,3)
  show "old = READY \<and> new = RUNNING \<or> old = RUNNING \<and> new = READY"
    by (auto simp: alternates_def)
qed

theorem waiting_job_status_alternates_witness:
  "(\<exists>j. heap (run defaults (waiting_history @ [Fire 0, Resolve 0 False]) init) 0 = Some j
        \<and> job_waiting defaults j \<and> job_status j = READY)
   \<and> status_log (run defaults (waiting_history @ [Fire 0, Resolve 0 False]) init) =
        [(0, READY, RUNNING), (0, RUNNING, READY)]
   \<and> exclusive (run defaults (waiting_history @ [Fire 0, Resolve 0 False]) init) 0
   \<and> \<not> in_flight (run defaults (waiting_history @ [Fire 0, Resolve 0 False]) init) 0"
  using waiting_job_status_alternates
    [of "run defaults (waiting_history @ [Fire 0, Resolve 0 False]) init" defaults
      "waiting_history @ [Fire 0, Resolve 0 False]" 0
      "\<lparr>job_key = ''w'', job_type = interval,
                job_config = Some [''waiting'' \<mapsto> JBool True],
                job_method = None, job_tryLock = None, job_timer = Some 0,
                job_instance = None, job_status = READY\<rparr>"]
  by (simp add: waiting_resolved_state job_waiting_def job_configs_def get_prop_def)

section \<open>Timeout jobs\<close>

text \<open>
  Claim C4 fails as stated. \<^verbatim>\<open>scheduleTimeoutJob('t', 50, cb, { waiting: true,
  immediate: true })\<close> starts the immediate run at once; the timer fires while that
  run is in flight, and its handler returns at the guard
  \<^verbatim>\<open>configs.waiting && job.status !== READY\<close> without a run and without a cancel;
  the immediate run then resolves with a false stop signal. The timer has fired its
  one time, the job's one Executor run is over, and the job is still in the registry,
  with no handle held and no run in flight.
\<close>

theorem timeout_job_left_registered_counterexample:
  "fst (fire 0 (run defaults stuck_timeout_history init)) = Returned
   \<and> deliveries defaults 0 [Fire 0, Resolve 0 False, Fire 0]
        (run defaults stuck_timeout_history init) = 1
   \<and> jobs (run defaults (stuck_timeout_history @ [Fire 0, Resolve 0 False]) init) = [(''t'', 0)]
   \<and> triggers (run defaults (stuck_timeout_history @ [Fire 0, Resolve 0 False]) init) = Map.empty
   \<and> running (run defaults (stuck_timeout_history @ [Fire 0, Resolve 0 False]) init) = Map.empty
   \<and> next_exec (run defaults (stuck_timeout_history @ [Fire 0, Resolve 0 False]) init) = 1
   \<and> status_log (run defaults (stuck_timeout_history @ [Fire 0, Resolve 0 False]) init) =
        [(0, READY, RUNNING), (0, RUNNING, READY)]"
  by (simp add: stuck_timeout_history_def model_defs)

text \<open>
  Claim C4, amended to the firings the waiting guard lets pass. In every state a
  history leads to, \<^verbatim>\<open>scheduleTimeoutJob\<close> with a free key registers a
  \<^verbatim>\<open>setTimeout\<close> handle with the timeout handler, and whatever happens next that
  handle is fired at most once. While it is held, its firing spends it; the job is
  registered, and the handler starts one run, unless \<^verbatim>\<open>configs.waiting\<close> is truthy
  and the job is not \<^verbatim>\<open>READY\<close>, when it returns at its guard and nothing else
  changes. When the run the firing started resolves, whatever the stop signal and
  whatever happened in between, the handler returns, the key is no longer in the
  registry and the trigger source holds no handle for it.
\<close>

theorem timeout_job_cancelled_after_its_run:
  assumes s: "s = run d evs init" and absent: "map_of (jobs s) key = None"
    and s1: "s1 = snd (scheduleTimeoutJob d key tmo cb config tryLock s)"
    and h: "h = next_handle s"
    and configs: "configs = Object_assign Map.empty [Some d, config]"
    and s2: "s2 = run d evs1 s1"
  shows "triggers s1 h =
           Some \<lparr>tr_kind = Once, tr_rule = tmo,
                 tr_onFire = \<lparr>cl_kind = TimeoutHandler, cl_key = key, cl_configs = configs,
                               cl_cb = cb, cl_tryLock = tryLock\<rparr>\<rparr>
    \<and> deliveries d h evs1 s1 \<le> 1
    \<and> (triggers s2 h \<noteq> None \<longrightarrow>
          triggers (snd (fire h s2)) h = None
        \<and> (\<exists>a job. jobs_get s2 key = Some (a, job)
              \<and> fire h s2 =
                  (if truthy (get_prop configs ''waiting'') \<and> job_status job \<noteq> READY
                   then (Returned, release_trigger h s2)
                   else start_run a key configs cb tryLock CancelAlways (release_trigger h s2))))
    \<and> (fire h s2 = (Awaiting e, s3) \<and> running (run d evs2 s3) e \<noteq> None \<longrightarrow>
          fst (resume e needStop (run d evs2 s3)) = Returned
        \<and> map_of (jobs (snd (resume e needStop (run d evs2 s3)))) key = None
        \<and> (\<forall>h' t'. triggers (snd (resume e needStop (run d evs2 s3))) h' = Some t' \<longrightarrow>
              cl_key (tr_onFire t') \<noteq> key))"
proof -
  let ?c = "\<lparr>cl_kind = TimeoutHandler, cl_key = key, cl_configs = configs,
             cl_cb = cb, cl_tryLock = tryLock\<rparr>"
  let ?t = "\<lparr>tr_kind = Once, tr_rule = tmo, tr_onFire = ?c\<rparr>"
  have inv: "registry_inv d s" unfolding s by (rule registry_inv_run)
  have inv1: "registry_inv d s1" unfolding s1 by (rule registry_inv_scheduleTimeoutJob [OF inv])
  have inv2: "registry_inv d s2" unfolding s2 by (rule registry_inv_run_from [OF inv1])
  have t1: "triggers s1 h = Some ?t"
    unfolding s1 h configs by (simp add: scheduleTimeoutJob_fresh [OF absent])
  have lt1: "h < next_handle s1"
    unfolding s1 h by (simp add: scheduleTimeoutJob_fresh [OF absent])
  have del: "deliveries d h evs1 s1 \<le> 1"
    by (rule once_delivered_at_most_once [OF lt1]) (simp add: t1)
  have held: "triggers s2 h \<noteq> None \<Longrightarrow> triggers s2 h = Some ?t"
    using held_run [OF lt1, of d evs1] t1 unfolding s2 kept_def by auto
  have fired: "triggers s2 h \<noteq> None \<Longrightarrow>
      \<exists>a job. jobs_get s2 key = Some (a, job)
        \<and> fire h s2 =
            (if truthy (get_prop configs ''waiting'') \<and> job_status job \<noteq> READY
             then (Returned, release_trigger h s2)
             else start_run a key configs cb tryLock CancelAlways (release_trigger h s2))"
  proof -
    assume "triggers s2 h \<noteq> None"
    then have t2: "triggers s2 h = Some ?t" by (rule held)
    from registry_inv_triggerD(3) [OF inv2 t2] obtain a job
      where j: "jobs_get s2 key = Some (a, job)"
      unfolding jobs_get_Some by auto
    have "fire h s2 =
            (if truthy (get_prop configs ''waiting'') \<and> job_status job \<noteq> READY
             then (Returned, release_trigger h s2)
             else start_run a key configs cb tryLock CancelAlways (release_trigger h s2))"
      using t2 j by (simp add: fire_def call_handler_def timeout_handler_def guarded_handler_def)
    with j show ?thesis by blast
  qed
  have spent: "triggers s2 h \<noteq> None \<Longrightarrow> triggers (snd (fire h s2)) h = None"
    using held by (auto simp: fire_fields)
  have fin: "fire h s2 = (Awaiting e, s3) \<Longrightarrow> running (run d evs2 s3) e \<noteq> None \<Longrightarrow>
          fst (resume e needStop (run d evs2 s3)) = Returned
        \<and> map_of (jobs (snd (resume e needStop (run d evs2 s3)))) key = None
        \<and> (\<forall>h' t'. triggers (snd (resume e needStop (run d evs2 s3))) h' = Some t' \<longrightarrow>
              cl_key (tr_onFire t') \<noteq> key)"
  proof -
    assume f: "fire h s2 = (Awaiting e, s3)" and r: "running (run d evs2 s3) e \<noteq> None"
    have "triggers s2 h \<noteq> None"
      using f by (auto simp: fire_def split: option.splits)
    from fired [OF this] obtain a job where
      fj: "jobs_get s2 key = Some (a, job) \<and> fire h s2 =
            (if truthy (get_prop configs ''waiting'') \<and> job_status job \<noteq> READY
             then (Returned, release_trigger h s2)
             else start_run a key configs cb tryLock CancelAlways (release_trigger h s2))"
      by (elim exE)
    have st: "(Awaiting e, s3) = start_run a key configs cb tryLock CancelAlways (release_trigger h s2)"
      using f fj by (auto split: if_splits)
    let ?x = "\<lparr>ex_configs = configs, ex_key = key, ex_cb = cb,
        ex_tryLock = tryLock, ex_job = a, ex_resume = CancelAlways\<rparr>"
    have e: "e = next_exec s2"
      using arg_cong [OF st, of fst] by simp
    have s3: "s3 = snd (start_run a key configs cb tryLock CancelAlways (release_trigger h s2))"
      using arg_cong [OF st, of snd] by simp
    have r3: "running s3 e = Some ?x" and lt3: "e < next_exec s3"
      unfolding s3 e by simp_all
    have inv3: "registry_inv d s3"
      using registry_inv_fire [OF inv2, of h] f by simp
    have inv4: "registry_inv d (run d evs2 s3)" by (rule registry_inv_run_from [OF inv3])
    have r4: "running (run d evs2 s3) e = Some ?x"
      using inflight_run [OF lt3, of d evs2] r r3 unfolding kept_def by auto
    have c: "ex_resume ?x = CancelAlways \<or> needStop" by simp
    from resume_cancels [OF inv4 r4 c]
    show ?thesis by simp
  qed
  show ?thesis using t1 del fired spent fin by blast
qed

theorem timeout_job_cancelled_after_its_run_witness:
  "init = run defaults [] init
   \<and> map_of (jobs init) ''t'' = None
   \<and> triggers (run defaults timeout_history init) 0 \<noteq> None
   \<and> deliveries defaults 0 [Fire 0, Fire 0] (run defaults timeout_history init) \<le> 1
   \<and> fire 0 (run defaults timeout_history init) =
        (Awaiting 0, run defaults (timeout_history @ [Fire 0]) init)
   \<and> running (run defaults (timeout_history @ [Fire 0]) init) 0 \<noteq> None
   \<and> fst (resume 0 False (run defaults (timeout_history @ [Fire 0]) init)) = Returned
   \<and> map_of (jobs (snd (resume 0 False (run defaults (timeout_history @ [Fire 0]) init)))) ''t''
        = None
   \<and> fire 0 (run defaults stuck_timeout_history init) =
        (Returned, release_trigger 0 (run defaults stuck_timeout_history init))"
proof -
  have a1: "init = run defaults [] init" by simp
  have a2: "map_of (jobs init) ''t'' = None" by (simp add: init_def)
  have a3: "run defaults timeout_history init =
      snd (scheduleTimeoutJob defaults ''t'' (JNum 50) (Some 0) None None init)"
    by (simp add: timeout_history_def)
  have b3: "run defaults stuck_timeout_history init =
      snd (scheduleTimeoutJob defaults ''t'' (JNum 50) (Some 0)
        (Some [''waiting'' \<mapsto> JBool True, ''immediate'' \<mapsto> JBool True]) None init)"
    by (simp add: stuck_timeout_history_def)
  have a4: "0 = next_handle init" by (simp add: init_def)
  have a5: "defaults = Object_assign Map.empty [Some defaults, None]" by simp
  have b5: "defaults ++ [''waiting'' \<mapsto> JBool True, ''immediate'' \<mapsto> JBool True] =
      Object_assign Map.empty
        [Some defaults, Some [''waiting'' \<mapsto> JBool True, ''immediate'' \<mapsto> JBool True]]"
    by simp
  have r0: "run defaults [] (run defaults timeout_history init) = run defaults timeout_history init"
    "run defaults [] (run defaults (timeout_history @ [Fire 0]) init) =
       run defaults (timeout_history @ [Fire 0]) init"
    "run defaults [] (run defaults stuck_timeout_history init) =
       run defaults stuck_timeout_history init"
    by simp_all
  note w1 = timeout_job_cancelled_after_its_run [OF a1 a2 a3 a4 a5 refl,
      where ?evs1.0 = "[]" and e = 0 and ?s3.0 = "run defaults (timeout_history @ [Fire 0]) init"
        and ?evs2.0 = "[]" and needStop = False, unfolded r0]
  note w2 = timeout_job_cancelled_after_its_run [OF a1 a2 a3 a4 a5 refl,
      where ?evs1.0 = "[Fire 0, Fire 0]", THEN conjunct2, THEN conjunct1]
  note w3 = timeout_job_cancelled_after_its_run [OF a1 a2 b3 a4 b5 refl,
      where ?evs1.0 = "[]", unfolded r0, THEN conjunct2, THEN conjunct2, THEN conjunct1]
  have t0: "triggers (run defaults timeout_history init) 0 \<noteq> None"
    by (simp add: timeout_state)
  have r1: "running (run defaults (timeout_history @ [Fire 0]) init) 0 \<noteq> None"
    by (simp add: timeout_fired_state)
  have t3: "triggers (run defaults stuck_timeout_history init) 0 \<noteq> None"
    by (simp add: stuck_timeout_state)
  have j3: "jobs_get (run defaults stuck_timeout_history init) ''t'' =
      Some (0, \<lparr>job_key = ''t'', job_type = timeout,
                job_config = Some [''waiting'' \<mapsto> JBool True, ''immediate'' \<mapsto> JBool True],
                job_method = None, job_tryLock = None, job_timer = Some 0,
                job_instance = None, job_status = RUNNING\<rparr>)"
    by (simp add: stuck_timeout_state jobs_get_def)
  have g3: "truthy (get_prop (defaults ++ [''waiting'' \<mapsto> JBool True, ''immediate'' \<mapsto> JBool True])
      ''waiting'')"
    by (simp add: get_prop_def)
  have f3: "fire 0 (run defaults stuck_timeout_history init) =
        (Returned, release_trigger 0 (run defaults stuck_timeout_history init))"
    using w3 t3 j3 g3 by auto
  show ?thesis
    using a1 a2 t0 w2 timeout_fire r1 f3 w1 by simp
qed

section \<open>Start and end bounds of a cron rule string\<close>

text \<open>
  Claim C5. \<^verbatim>\<open>scheduleCronJob\<close> with a key that is free and a rule that is not an
  object registers with the trigger source the rule object whose \<^verbatim>\<open>start\<close> and
  \<^verbatim>\<open>end\<close> are \<^verbatim>\<open>config.startTime\<close> and \<^verbatim>\<open>config.endTime\<close> of the raw config
  parameter, and \<^verbatim>\<open>null\<close> when the parameter was omitted; the defaults \<open>d\<close> do not
  occur in it, while the handler's configs are the merged ones. With a structured
  rule object the registered rule is a copy of that object, whatever the config.
\<close>

theorem cron_string_bounds_read_raw_config:
  assumes "map_of (jobs s) key = None"
  shows "(\<not> typeof_object cronv \<longrightarrow>
        triggers (snd (scheduleCronJob d key cronv cb config tryLock s)) (next_handle s) =
          Some \<lparr>tr_kind = Recurring,
                tr_rule = JObj [''start'' \<mapsto> (case config of None \<Rightarrow> JNull
                                                | Some c \<Rightarrow> get_prop c ''startTime''),
                               ''end'' \<mapsto> (case config of None \<Rightarrow> JNull
                                                | Some c \<Rightarrow> get_prop c ''endTime''),
                               ''rule'' \<mapsto> cronv],
                tr_onFire = \<lparr>cl_kind = CronHandler, cl_key = key,
                  cl_configs = (case config of None \<Rightarrow> d | Some c \<Rightarrow> d ++ c),
                  cl_cb = cb, cl_tryLock = tryLock\<rparr>\<rparr>)
    \<and> (typeof_object cronv \<longrightarrow>
        triggers (snd (scheduleCronJob d key cronv cb config tryLock s)) (next_handle s) =
          Some \<lparr>tr_kind = Recurring, tr_rule = JObj (spread cronv),
                tr_onFire = \<lparr>cl_kind = CronHandler, cl_key = key,
                  cl_configs = (case config of None \<Rightarrow> d | Some c \<Rightarrow> d ++ c),
                  cl_cb = cb, cl_tryLock = tryLock\<rparr>\<rparr>)"
  by (cases config) (simp_all add: scheduleCronJob_fresh [OF assms])

theorem cron_string_bounds_read_raw_config_witness:
  "map_of (jobs init) ''c'' = None
   \<and> \<not> typeof_object (JStr ''* * * * *'')
   \<and> map_option (\<lambda>t. (tr_rule t, get_prop (cl_configs (tr_onFire t)) ''startTime''))
        (triggers (snd (scheduleCronJob (defaults(''startTime'' \<mapsto> JDate 5)) ''c''
           (JStr ''* * * * *'') (Some 0) None None init)) 0) =
       Some (JObj [''start'' \<mapsto> JNull, ''end'' \<mapsto> JNull, ''rule'' \<mapsto> JStr ''* * * * *''],
             JDate 5)
   \<and> map_option (\<lambda>t. (tr_rule t, get_prop (cl_configs (tr_onFire t)) ''startTime''))
        (triggers (snd (scheduleCronJob (defaults(''startTime'' \<mapsto> JDate 5)) ''c''
           (JStr ''* * * * *'') (Some 0) (Some [''waiting'' \<mapsto> JBool True]) None init)) 0) =
       Some (JObj [''start'' \<mapsto> JUndefined, ''end'' \<mapsto> JUndefined,
                   ''rule'' \<mapsto> JStr ''* * * * *''],
             JDate 5)
   \<and> typeof_object (JObj [''rule'' \<mapsto> JStr ''0 0 * * *''])
   \<and> map_option tr_rule
        (triggers (snd (scheduleCronJob (defaults(''startTime'' \<mapsto> JDate 5)) ''c''
           (JObj [''rule'' \<mapsto> JStr ''0 0 * * *'']) (Some 0)
           (Some [''startTime'' \<mapsto> JDate 7]) None init)) 0) =
       Some (JObj [''rule'' \<mapsto> JStr ''0 0 * * *''])"
  using cron_string_bounds_read_raw_config
      [of init "''c''" "JStr ''* * * * *''" "defaults(''startTime'' \<mapsto> JDate 5)" "Some 0" None None]
    cron_string_bounds_read_raw_config
      [of init "''c''" "JStr ''* * * * *''" "defaults(''startTime'' \<mapsto> JDate 5)" "Some 0"
        "Some [''waiting'' \<mapsto> JBool True]" None]
    cron_string_bounds_read_raw_config
      [of init "''c''" "JObj [''rule'' \<mapsto> JStr ''0 0 * * *'']"
        "defaults(''startTime'' \<mapsto> JDate 5)" "Some 0" "Some [''startTime'' \<mapsto> JDate 7]" None]
  by (simp add: init_def get_prop_def defaults_def)

section \<open>The enable flag\<close>

text \<open>
  Claim C6, at the input where the code departs from it. Only \<^verbatim>\<open>queueJob\<close> tests
  \<^verbatim>\<open>enable\<close>. \<^verbatim>\<open>scheduleIntervalJob('k', 1000, cb, { enable: false })\<close> registers the
  timer and the job, and the first firing starts an Executor run on the callback;
  \<^verbatim>\<open>queueJob\<close> with the same flag registers nothing.
\<close>

theorem disabled_job_still_scheduled:
  "get_prop (Object_assign Map.empty [Some defaults, Some [''enable'' \<mapsto> JBool False]]) ''enable''
     = JBool False
   \<and> run defaults [CallScheduleIntervalJob ''k'' (JNum 1000) (Some 0)
         (Some [''enable'' \<mapsto> JBool False]) None, Fire 0] init =
     \<lparr>jobs = [(''k'', 0)],
      heap = [0 \<mapsto> \<lparr>job_key = ''k'', job_type = interval,
                job_config = Some [''enable'' \<mapsto> JBool False],
                job_method = None, job_tryLock = None, job_timer = Some 0,
                job_instance = None, job_status = RUNNING\<rparr>],
      next_addr = 1,
      triggers = [0 \<mapsto> \<lparr>tr_kind = Repeating, tr_rule = JNum 1000,
                tr_onFire = \<lparr>cl_kind = IntervalHandler, cl_key = ''k'',
                  cl_configs = [''enable'' \<mapsto> JBool False], cl_cb = Some 0,
                  cl_tryLock = None\<rparr>\<rparr>],
      next_handle = 1,
      running = [0 \<mapsto> \<lparr>ex_configs = [''enable'' \<mapsto> JBool False], ex_key = ''k'',
                  ex_cb = Some 0, ex_tryLock = None, ex_job = 0, ex_resume = CancelIfStop\<rparr>],
      next_exec = 1, status_log = [(0, READY, RUNNING)]\<rparr>
   \<and> queueJob defaults \<lparr>job_key = ''k'', job_type = interval,
          job_config = Some [''enable'' \<mapsto> JBool False, ''interval'' \<mapsto> JNum 1000],
          job_method = Some 0, job_tryLock = None, job_timer = None, job_instance = None,
          job_status = READY\<rparr> init = (Returned, init)"
  by (simp add: model_defs)

section \<open>The waiting policy\<close>

text \<open>
  Claim C7. When the handler's \<^verbatim>\<open>configs.waiting\<close> is truthy and the job registered
  under its key is not \<^verbatim>\<open>READY\<close>, each of the four fire handlers, and
  \<^verbatim>\<open>runJobImmediately\<close>, returns at once and leaves the state as it was: no
  Executor is made (no run is added and the run counter stands), no status is
  assigned. Delivered by the trigger source, such a firing changes nothing but the
  trigger source's own record of a \<^verbatim>\<open>setTimeout\<close> handle, which is spent.
\<close>

theorem waiting_firing_skipped:
  assumes "truthy (get_prop (cl_configs c) ''waiting'')"
    and "jobs_get s (cl_key c) = Some (a, job)" and "job_status job \<noteq> READY"
  shows "call_handler c s = (Returned, s)
    \<and> runJobImmediately (cl_key c) (cl_configs c) cb tryLock s = (Returned, s)
    \<and> (triggers s h = Some t \<and> tr_onFire t = c \<longrightarrow>
          fire h s = (Returned, if tr_kind t = Once then release_trigger h s else s))"
  using assms
  by (simp add: call_handler_def cron_handler_def interval_handler_def timeout_handler_def
      guarded_handler_def runJobImmediately_def fire_def split: handler_kind.splits)

theorem waiting_firing_skipped_witness:
  "truthy (get_prop [''waiting'' \<mapsto> JBool True] ''waiting'')
   \<and> (\<exists>a job. jobs_get (run defaults waiting_history init) ''w'' = Some (a, job)
         \<and> job_status job \<noteq> READY)
   \<and> fire 0 (run defaults waiting_history init) = (Returned, run defaults waiting_history init)"
  using waiting_firing_skipped
    [of "\<lparr>cl_kind = IntervalHandler, cl_key = ''w'',
          cl_configs = [''waiting'' \<mapsto> JBool True], cl_cb = Some 0, cl_tryLock = None\<rparr>"
      "run defaults waiting_history init" 0
      "\<lparr>job_key = ''w'', job_type = interval,
                job_config = Some [''waiting'' \<mapsto> JBool True],
                job_method = None, job_tryLock = None, job_timer = Some 0,
                job_instance = None, job_status = RUNNING\<rparr>" _ _ 0
      "\<lparr>tr_kind = Repeating, tr_rule = JNum 1000,
                tr_onFire = \<lparr>cl_kind = IntervalHandler, cl_key = ''w'',
                  cl_configs = [''waiting'' \<mapsto> JBool True], cl_cb = Some 0, cl_tryLock = None\<rparr>\<rparr>"]
  by (simp add: waiting_state jobs_get_def get_prop_def)

section \<open>The stop signal\<close>

text \<open>
  Claim C8. In every state a history leads to, when a run that a cron, interval or
  recurrence handler (or \<^verbatim>\<open>runJobImmediately\<close>) awaits resolves with a true stop
  signal, the handler returns normally, the key is no longer in the registry, the
  trigger source holds no handle whose closure has that key, and whatever happens
  next, short of a new registration of the key, no firing starts a run for it.
\<close>

theorem stop_signal_cancels_job:
  assumes "s = run d evs init" and "running s e = Some x" and "ex_resume x = CancelIfStop"
    and "s' = snd (resume e True s)"
  shows "fst (resume e True s) = Returned
    \<and> map_of (jobs s') (ex_key x) = None
    \<and> (\<forall>h t. triggers s' h = Some t \<longrightarrow> cl_key (tr_onFire t) \<noteq> ex_key x)
    \<and> (\<forall>evs' h e' x'. (\<forall>ev \<in> set evs'. \<not> registers (ex_key x) ev)
          \<and> fst (fire h (run d evs' s')) = Awaiting e'
          \<and> running (snd (fire h (run d evs' s'))) e' = Some x' \<longrightarrow> ex_key x' \<noteq> ex_key x)"
proof (intro conjI allI impI)
  have inv: "registry_inv d s" unfolding assms(1) by (rule registry_inv_run)
  have c: "ex_resume x = CancelAlways \<or> True" by simp
  show "fst (resume e True s) = Returned"
    by (rule resume_cancels(1) [OF inv assms(2) c])
  show absent: "map_of (jobs s') (ex_key x) = None"
    unfolding assms(4) by (rule resume_cancels(2) [OF inv assms(2) c])
  show "\<And>h t. triggers s' h = Some t \<Longrightarrow> cl_key (tr_onFire t) \<noteq> ex_key x"
    unfolding assms(4) by (rule resume_cancels(3) [OF inv assms(2) c])
  have inv': "registry_inv d s'" unfolding assms(4) by (rule registry_inv_resume [OF inv])
  fix evs' h e' x'
  assume a: "(\<forall>ev \<in> set evs'. \<not> registers (ex_key x) ev)
          \<and> fst (fire h (run d evs' s')) = Awaiting e'
          \<and> running (snd (fire h (run d evs' s'))) e' = Some x'"
  have i: "registry_inv d (run d evs' s')" by (rule registry_inv_run_from [OF inv'])
  have n: "map_of (jobs (run d evs' s')) (ex_key x) = None"
    using absent a by (simp add: absent_run)
  from fire_key [of h "run d evs' s'" e' x'] a
  obtain t where t: "triggers (run d evs' s') h = Some t" "ex_key x' = cl_key (tr_onFire t)"
    by blast
  from registry_inv_triggerD(3) [OF i t(1)] n t(2)
  show "ex_key x' \<noteq> ex_key x" by auto
qed

theorem stop_signal_cancels_job_witness:
  "(\<exists>x. running (run defaults (cron_history @ [Fire 0]) init) 0 = Some x
        \<and> ex_resume x = CancelIfStop \<and> ex_key x = ''c'')
   \<and> fst (resume 0 True (run defaults (cron_history @ [Fire 0]) init)) = Returned
   \<and> jobs (snd (resume 0 True (run defaults (cron_history @ [Fire 0]) init))) = []
   \<and> triggers (snd (resume 0 True (run defaults (cron_history @ [Fire 0]) init))) = Map.empty
   \<and> fire 0 (run defaults [CallCancelJob ''zz'']
         (snd (resume 0 True (run defaults (cron_history @ [Fire 0]) init)))) =
      (Returned, snd (resume 0 True (run defaults (cron_history @ [Fire 0]) init)))"
  using stop_signal_cancels_job
    [of "run defaults (cron_history @ [Fire 0]) init" defaults "cron_history @ [Fire 0]" 0
      "\<lparr>ex_configs = defaults, ex_key = ''c'', ex_cb = Some 0,
                  ex_tryLock = None, ex_job = 0, ex_resume = CancelIfStop\<rparr>"
      "snd (resume 0 True (run defaults (cron_history @ [Fire 0]) init))"]
  by (simp add: cron_fired_state resume_def cancelJob_def jobs_get_def release_trigger_def
      set_status_def fire_def Let_def)

section \<open>Cancelling\<close>

text \<open>
  Claim C9. \<^verbatim>\<open>cancelJob\<close> of a key that is not in the registry returns and leaves
  the state as it was. In every state a history leads to, \<^verbatim>\<open>cancelJob\<close> of a key
  that is in the registry returns, releases the handle of that job's kind and
  deletes the key's entry: the other entries, the job objects and the runs in flight
  stay as they were.
\<close>

theorem cancelJob_effect:
  shows "(map_of (jobs s) key = None \<longrightarrow> cancelJob key s = (Returned, s))
    \<and> (s = run d evs init \<and> map_of (jobs s) key = Some a \<longrightarrow>
         (\<exists>j h. heap s a = Some j \<and> job_handle j = Some h
            \<and> cancelJob key s =
                (Returned, s\<lparr>triggers := (triggers s)(h := None),
                             jobs := AList.delete key (jobs s)\<rparr>)
            \<and> map_of (jobs (snd (cancelJob key s))) = (map_of (jobs s))(key := None)))"
proof (intro conjI impI)
  assume "map_of (jobs s) key = None"
  then show "cancelJob key s = (Returned, s)"
    by (simp add: cancelJob_absent jobs_get_def)
next
  assume a: "s = run d evs init \<and> map_of (jobs s) key = Some a"
  then have inv: "registry_inv d s" by (simp add: registry_inv_run)
  from registry_inv_jobD [OF inv conjunct2 [OF a]] obtain j h
    where j: "heap s a = Some j" "job_handle j = Some h" by blast
  have g: "jobs_get s key = Some (a, j)"
    unfolding jobs_get_Some using conjunct2 [OF a] j(1) by (rule conjI)
  have eq: "cancelJob key s =
                (Returned, s\<lparr>triggers := (triggers s)(h := None),
                             jobs := AList.delete key (jobs s)\<rparr>)"
    by (rule cancelJob_present [OF g j(2)])
  have "map_of (jobs (snd (cancelJob key s))) = (map_of (jobs s))(key := None)"
    unfolding eq by (simp add: delete_conv')
  with j eq show "\<exists>j h. heap s a = Some j \<and> job_handle j = Some h
            \<and> cancelJob key s =
                (Returned, s\<lparr>triggers := (triggers s)(h := None),
                             jobs := AList.delete key (jobs s)\<rparr>)
            \<and> map_of (jobs (snd (cancelJob key s))) = (map_of (jobs s))(key := None)"
    by blast
qed

theorem cancelJob_effect_witness:
  "map_of (jobs (run defaults interval_history init)) ''zz'' = None
   \<and> cancelJob ''zz'' (run defaults interval_history init) =
       (Returned, run defaults interval_history init)
   \<and> map_of (jobs (run defaults interval_history init)) ''k'' = Some 0
   \<and> cancelJob ''k'' (run defaults interval_history init) =
       (Returned, (run defaults interval_history init)\<lparr>triggers := Map.empty, jobs := []\<rparr>)"
  using cancelJob_effect [of "run defaults interval_history init" "''zz''" defaults interval_history 0]
    cancelJob_effect [of "run defaults interval_history init" "''k''" defaults interval_history 0]
  by (simp add: interval_state job_handle_def)

section \<open>Firings for a key that is gone\<close>

text \<open>
  Claim C10. Called while its key is not in the registry, the handler of
  \<^verbatim>\<open>scheduleCronJob\<close> and of \<^verbatim>\<open>scheduleRecurrenceJob\<close> faults with a
  \<^verbatim>\<open>TypeError\<close> on the undefined entry (reading its status when \<^verbatim>\<open>configs.waiting\<close>
  is truthy, assigning it otherwise), and the handlers of \<^verbatim>\<open>scheduleIntervalJob\<close>
  and \<^verbatim>\<open>scheduleTimeoutJob\<close> return; none of them changes the state.
\<close>

theorem cron_handler_faults_on_absent_key:
  assumes "map_of (jobs s) (cl_key c) = None"
  shows "call_handler c s =
     (case cl_kind c of
        CronHandler \<Rightarrow> (Threw (TypeError (if truthy (get_prop (cl_configs c) ''waiting'')
            then ''Cannot read properties of undefined (reading 'status')''
            else ''Cannot set properties of undefined (setting 'status')'')), s)
      | RecurrenceHandler \<Rightarrow> (Threw (TypeError (if truthy (get_prop (cl_configs c) ''waiting'')
            then ''Cannot read properties of undefined (reading 'status')''
            else ''Cannot set properties of undefined (setting 'status')'')), s)
      | IntervalHandler \<Rightarrow> (Returned, s)
      | TimeoutHandler \<Rightarrow> (Returned, s))"
  using assms
  by (simp add: call_handler_def cron_handler_def interval_handler_def timeout_handler_def
      guarded_handler_def jobs_get_def split: handler_kind.splits)

theorem cron_handler_faults_on_absent_key_witness:
  "map_of (jobs init) ''c'' = None
   \<and> call_handler \<lparr>cl_kind = CronHandler, cl_key = ''c'', cl_configs = defaults,
        cl_cb = Some 0, cl_tryLock = None\<rparr> init =
       (Threw (TypeError ''Cannot set properties of undefined (setting 'status')''), init)
   \<and> call_handler \<lparr>cl_kind = RecurrenceHandler, cl_key = ''c'',
        cl_configs = [''waiting'' \<mapsto> JBool True], cl_cb = Some 0, cl_tryLock = None\<rparr> init =
       (Threw (TypeError ''Cannot read properties of undefined (reading 'status')''), init)
   \<and> call_handler \<lparr>cl_kind = IntervalHandler, cl_key = ''c'', cl_configs = defaults,
        cl_cb = Some 0, cl_tryLock = None\<rparr> init = (Returned, init)
   \<and> call_handler \<lparr>cl_kind = TimeoutHandler, cl_key = ''c'', cl_configs = defaults,
        cl_cb = Some 0, cl_tryLock = None\<rparr> init = (Returned, init)"
  using cron_handler_faults_on_absent_key
    [of init "\<lparr>cl_kind = CronHandler, cl_key = ''c'', cl_configs = defaults,
        cl_cb = Some 0, cl_tryLock = None\<rparr>"]
    cron_handler_faults_on_absent_key
    [of init "\<lparr>cl_kind = RecurrenceHandler, cl_key = ''c'',
        cl_configs = [''waiting'' \<mapsto> JBool True], cl_cb = Some 0, cl_tryLock = None\<rparr>"]
    cron_handler_faults_on_absent_key
    [of init "\<lparr>cl_kind = IntervalHandler, cl_key = ''c'', cl_configs = defaults,
        cl_cb = Some 0, cl_tryLock = None\<rparr>"]
    cron_handler_faults_on_absent_key
    [of init "\<lparr>cl_kind = TimeoutHandler, cl_key = ''c'', cl_configs = defaults,
        cl_cb = Some 0, cl_tryLock = None\<rparr>"]
  by (simp add: init_def get_prop_def defaults_def)

end
